theory Spec2Isabelle
  imports Complex_Main "HOL-Library.Word"
begin

unbundle bit_operations_syntax

section \<open>Single-precision arithmetic\<close>

text \<open>
  The C type \<open>float\<close> is IEEE-754 binary32, and an expression of type \<open>float\<close> is
  evaluated in that type.  A finite \<open>float\<close> is modelled by the real number it
  denotes, and every operation of the source is the exact real operation followed by
  \<open>fl32\<close>, rounding to the nearest number with a 24-bit significand, ties to the even
  significand.  The exponent range is not modelled: there is no overflow to infinity, no
  subnormal and no NaN.  \<open>exp2f\<close> and \<open>log2f\<close> are taken to be correctly rounded, and
  \<open>log2f\<close> is only meaningful on positive arguments (the callers pass a positive number
  of seconds and a positive time unit).  A conversion to an unsigned type of a value out
  of its range, and the left shift of a negative \<open>int\<close>, are given their two's
  complement value.
\<close>

definition rne :: "real \<Rightarrow> int" where
  "rne y = (let f = \<lfloor>y\<rfloor>; r = y - of_int f in
            if r < 1 / 2 then f
            else if 1 / 2 < r then f + 1
            else if even f then f else f + 1)"

definition fl32 :: "real \<Rightarrow> real" where
  "fl32 x = (if x = 0 then 0
             else let e = \<lfloor>log 2 \<bar>x\<bar>\<rfloor> - 23 in
               of_int (rne (x / 2 powr of_int e)) * 2 powr of_int e)"

definition fadd :: "real \<Rightarrow> real \<Rightarrow> real" where
  "fadd x y = fl32 (x + y)"

definition fsub :: "real \<Rightarrow> real \<Rightarrow> real" where
  "fsub x y = fl32 (x - y)"

definition fmul :: "real \<Rightarrow> real \<Rightarrow> real" where
  "fmul x y = fl32 (x * y)"

definition fdiv :: "real \<Rightarrow> real \<Rightarrow> real" where
  "fdiv x y = fl32 (x / y)"

text \<open>Conversion of an \<open>int\<close> to \<open>float\<close>, and of a \<open>float\<close> to an integer type
  (truncation towards zero).\<close>

definition i2f :: "int \<Rightarrow> real" where
  "i2f n = fl32 (of_int n)"

definition f2i :: "real \<Rightarrow> int" where
  "f2i x = (if 0 \<le> x then \<lfloor>x\<rfloor> else \<lceil>x\<rceil>)"

definition exp2f :: "real \<Rightarrow> real" where
  "exp2f x = fl32 (2 powr x)"

definition log2f :: "real \<Rightarrow> real" where
  "log2f x = fl32 (log 2 x)"

text \<open>The literal \<open>1.024f\<close>.\<close>

definition f1024 :: real where
  "f1024 = fl32 (1024 / 1000)"

section \<open>Registers, the access layer and the printed lines\<close>

type_synonym u64 = "64 word"

text \<open>\<open>errstr\<close>: either \<open>strerror(errno)\<close> or one of the literals of the source.\<close>

datatype errstr = Strerror | Literal string

text \<open>One constructor per \<open>printf\<close> of the source, with its arguments.\<close>

datatype line =
    Blank
  | Uv_error string int errstr
  | Uv_value string int real
  | Power_read_failed string errstr
  | Power_not_equal
  | Power_write_failed string errstr
  | Power_locked string
  | Short_term string int real bool
  | Long_term string int real bool
  | Tj_write_failed errstr
  | Tj_offset int
  | Tj_read_failed "errstr option"

text \<open>The accesses the code attempts, logged in order.\<close>

datatype event =
    Pread nat
  | Pwrite nat u64
  | Safe_read "nat option"
  | Safe_write "nat option" u64

text \<open>
  The declarations of \<open>undervolt.h\<close> are not part of the source file.  The register
  addresses, \<open>MAP_MASK\<close>, the system calls \<open>pread\<close> and \<open>pwrite\<close> on \<open>fd_msr\<close> and the
  guarded memory access \<open>safe_rw\<close> are parameters: \<open>'s\<close> is the state of the machine
  behind them, a failed call is \<open>None\<close> or \<open>False\<close>.  \<open>safe_rw_read c s p\<close> stands for
  \<open>safe_rw(p, &v, false)\<close> and \<open>safe_rw_write c s p v\<close> for \<open>safe_rw(p, &v, true)\<close>.
\<close>

record 's platform =
  MSR_ADDR_VOLTAGE :: nat
  MSR_ADDR_UNITS :: nat
  MSR_ADDR_TEMPERATURE :: nat
  MAP_MASK :: nat
  pread :: "'s \<Rightarrow> nat \<Rightarrow> u64 option \<times> 's"
  pwrite :: "'s \<Rightarrow> nat \<Rightarrow> u64 \<Rightarrow> bool \<times> 's"
  safe_rw_read :: "'s \<Rightarrow> nat option \<Rightarrow> u64 option \<times> 's"
  safe_rw_write :: "'s \<Rightarrow> nat option \<Rightarrow> u64 \<Rightarrow> bool \<times> 's"

text \<open>
  What a call works on: the machine, the log of accesses, the lines printed, and the
  caller's flag \<open>bool * nl\<close> (\<open>None\<close> when the pointer is \<open>NULL\<close>).
\<close>

record 's world =
  dev :: 's
  trace :: "event list"
  out :: "line list"
  nl :: "bool option"

definition rd :: "'s platform \<Rightarrow> nat \<Rightarrow> 's world \<Rightarrow> u64 option \<times> 's world" where
  "rd c a w = (case pread c (dev w) a of
                 (r, d) \<Rightarrow> (r, w\<lparr>dev := d, trace := trace w @ [Pread a]\<rparr>))"

definition wr :: "'s platform \<Rightarrow> nat \<Rightarrow> u64 \<Rightarrow> 's world \<Rightarrow> bool \<times> 's world" where
  "wr c a t w = (case pwrite c (dev w) a t of
                   (r, d) \<Rightarrow> (r, w\<lparr>dev := d, trace := trace w @ [Pwrite a t]\<rparr>))"

definition safe_rw :: "'s platform \<Rightarrow> nat option \<Rightarrow> u64 option \<Rightarrow> 's world \<Rightarrow>
    u64 option \<times> 's world" where
  "safe_rw c mem data w =
     (case data of
        None \<Rightarrow> (case safe_rw_read c (dev w) mem of
                   (r, d) \<Rightarrow> (r, w\<lparr>dev := d, trace := trace w @ [Safe_read mem]\<rparr>))
      | Some v \<Rightarrow> (case safe_rw_write c (dev w) mem v of
                   (r, d) \<Rightarrow> (if r then Some v else None,
                              w\<lparr>dev := d, trace := trace w @ [Safe_write mem v]\<rparr>)))"

definition print :: "line \<Rightarrow> 's world \<Rightarrow> 's world" where
  "print l w = w\<lparr>out := out w @ [l]\<rparr>"

text \<open>
  Modelled from the spec: the macro \<open>NEW_LINE(nl, nll)\<close> of \<open>undervolt.h\<close>, the
  "print separator line before first message per call" bookkeeping.  \<open>nll\<close> records
  that this call has already been through it; the caller's flag records that an
  earlier call has printed.
\<close>

definition NEW_LINE :: "bool \<Rightarrow> 's world \<Rightarrow> bool \<times> 's world" where
  "NEW_LINE nll w =
     (case nl w of
        None \<Rightarrow> (nll, w)
      | Some b \<Rightarrow> if nll then (nll, w)
                  else (True, (if b then print Blank w else w)\<lparr>nl := Some True\<rparr>))"

section \<open>Voltage offsets\<close>

text \<open>
  Modelled from the spec: the Voltage Plane Target \<open>uv_list_t\<close>, declared in
  \<open>undervolt.h\<close>: an \<open>int\<close> plane index, a label and the offset in millivolts, a
  \<open>float\<close>.  \<open>undervolt_ctx_t\<close> is the context of the source without its two
  pointers, for which the platform and the world stand.
\<close>

record uv_list_t =
  uv_index :: int
  uv_title :: string
  uv_value :: real

record undervolt_ctx_t =
  ctx_write :: bool
  ctx_success :: bool
  ctx_nll :: bool

text \<open>Line 56: \<open>uvint\<close>, with \<open>mask = 0x800\<close>.\<close>

definition uvint :: "real \<Rightarrow> u64" where
  "uvint v = push_bit 21 (word_of_int (f2i
               (fadd (fsub (i2f 0x800) (fmul \<bar>v\<bar> f1024)) (1 / 2)))) AND 0xffffffff"

text \<open>Line 79: \<open>val\<close>, from the value read back.\<close>

definition uvval :: "u64 \<Rightarrow> real" where
  "uvval rdval = fdiv (fl32 (of_nat (unat ((0x800 - drop_bit 21 rdval) AND (0x800 - 1))))) f1024"

definition uv_rdval :: "uv_list_t \<Rightarrow> u64" where
  "uv_rdval uv = 0x8000001000000000 OR push_bit 40 (word_of_int (uv_index uv))"

definition uv_wrval :: "uv_list_t \<Rightarrow> u64" where
  "uv_wrval uv = uv_rdval uv OR 0x100000000 OR uvint (uv_value uv)"

definition undervolt_it :: "'s platform \<Rightarrow> uv_list_t \<Rightarrow>
    undervolt_ctx_t \<times> 's world \<Rightarrow> undervolt_ctx_t \<times> 's world" where
  "undervolt_it c uv = (\<lambda>(ctx, w).
     let rdval = uv_rdval uv;
         wrval = uv_wrval uv;
         (write_success, w1) =
            (if \<not> ctx_write ctx then (True, w) else wr c (MSR_ADDR_VOLTAGE c) wrval w);
         (readback, w2) =
            (if \<not> write_success then (None, w1)
             else case wr c (MSR_ADDR_VOLTAGE c) rdval w1 of
                    (False, w') \<Rightarrow> (None, w')
                  | (True, w') \<Rightarrow> rd c (MSR_ADDR_VOLTAGE c) w');
         errstr =
            (case readback of
               None \<Rightarrow> Some Strerror
             | Some rdval' \<Rightarrow>
                 if ctx_write ctx \<and> rdval' AND 0xffffffff \<noteq> wrval AND 0xffffffff
                 then Some (Literal ''Values do not equal'') else None);
         (nll, w3) = NEW_LINE (ctx_nll ctx) w2
     in case errstr of
          Some e \<Rightarrow> (ctx\<lparr>ctx_success := False, ctx_nll := nll\<rparr>,
                     print (Uv_error (uv_title uv) (uv_index uv) e) w3)
        | None \<Rightarrow> (ctx\<lparr>ctx_nll := nll\<rparr>,
                   (case readback of
                      Some rdval' \<Rightarrow>
                        print (Uv_value (uv_title uv) (uv_index uv) (uvval rdval')) w3
                    | None \<Rightarrow> w3)))"

text \<open>
  Modelled from the spec: \<open>uv_list_foreach\<close>, declared outside the source file, calls
  the function on every target of the sequence, in order, with the same context.
\<close>

definition uv_list_foreach :: "uv_list_t list \<Rightarrow> (uv_list_t \<Rightarrow> 'a \<Rightarrow> 'a) \<Rightarrow> 'a \<Rightarrow> 'a" where
  "uv_list_foreach uv f data = fold f uv data"

text \<open>\<open>config->uv\<close> is the list of targets, \<open>NULL\<close> when there is none.\<close>

definition undervolt :: "'s platform \<Rightarrow> uv_list_t list \<Rightarrow> bool \<Rightarrow> 's world \<Rightarrow> bool \<times> 's world" where
  "undervolt c uv write w =
     (if uv \<noteq> [] then
        (case uv_list_foreach uv (undervolt_it c)
                (\<lparr>ctx_write = write, ctx_success = True, ctx_nll = False\<rparr>, w) of
           (ctx, w') \<Rightarrow> (ctx_success ctx, w'))
      else (True, w))"

section \<open>Time windows\<close>

definition power_to_seconds :: "int \<Rightarrow> int \<Rightarrow> real" where
  "power_to_seconds value time_unit =
     (let multiplier = fadd (i2f 1) (fdiv (i2f (drop_bit 6 value AND 0x3)) 4);
          exponent = drop_bit 1 value AND 0x1f
      in fdiv (fmul (exp2f (i2f exponent)) multiplier) (i2f time_unit))"

text \<open>One round of the loop of \<open>power_from_seconds\<close>, on \<open>(last_diff, last_result)\<close>.
  The shift \<open>exponent_int << 1\<close> of a negative \<open>int\<close> is the two's complement one.\<close>

definition power_from_seconds_step :: "real \<Rightarrow> int \<Rightarrow> int \<Rightarrow> real \<times> int \<Rightarrow> real \<times> int" where
  "power_from_seconds_step seconds time_unit i = (\<lambda>(last_diff, last_result).
     let multiplier = fadd (i2f 1) (fdiv (i2f i) 4);
         value = fdiv (fmul seconds (i2f time_unit)) multiplier;
         exponent = log2f value;
         exponent_int = f2i exponent;
         diff = fsub exponent (i2f exponent_int);
         (exponent_int, diff) =
            (if exponent_int < 0x19 \<and> diff > 1 / 2
             then (exponent_int + 1, fsub 1 diff) else (exponent_int, diff))
     in if exponent_int < 0x20 then
          if diff < last_diff
          then (diff, push_bit 6 i OR push_bit 1 exponent_int)
          else (last_diff, last_result)
        else (last_diff, last_result))"

definition power_from_seconds :: "real \<Rightarrow> int \<Rightarrow> int" where
  "power_from_seconds seconds time_unit =
     (if log2f (fdiv (fmul seconds (i2f time_unit)) (175 / 100)) \<ge> 0x1f then 0xfe
      else snd (fold (power_from_seconds_step seconds time_unit) [0, 1, 2, 3] (1, 0)))"

text \<open>What one round of that loop proposes for the multiplier index \<open>i\<close>, before the
  comparisons with \<open>0x20\<close> and \<open>last_diff\<close>: the pair \<open>(exponent_int, diff)\<close> after the
  rounding up of lines 118-121.\<close>

definition candidate :: "real \<Rightarrow> int \<Rightarrow> int \<Rightarrow> int \<times> real" where
  "candidate seconds time_unit i =
     (let exponent = log2f (fdiv (fmul seconds (i2f time_unit)) (fadd (i2f 1) (fdiv (i2f i) 4)));
          exponent_int = f2i exponent;
          diff = fsub exponent (i2f exponent_int)
      in if exponent_int < 0x19 \<and> diff > 1 / 2
         then (exponent_int + 1, fsub 1 diff) else (exponent_int, diff))"

section \<open>Power limits\<close>

text \<open>
  Modelled from the spec: the Power Limit Request \<open>power_limit_t\<close> and the Power Domain
  Descriptor \<open>power_domain_t\<close>, declared in \<open>undervolt.h\<close>: the power ceilings in
  watts are \<open>int\<close>s, the time windows in seconds are \<open>float\<close>s, \<open>mem\<close> is the base
  of the mapped memory (\<open>None\<close> for \<open>NULL\<close>); the field \<open>apply\<close> is \<open>apply_it\<close>
  here.
\<close>

record power_limit_t =
  apply_it :: bool
  short_term :: int
  short_time_window :: real
  long_term :: int
  long_time_window :: real
  mem :: "nat option"

record power_domain_t =
  name :: string
  msr_addr :: nat
  mem_addr :: nat

text \<open>Lines 147 to 169.  A limit is \<open>None\<close> when its path does not exist (address 0) and
  the variable is left uninitialised.\<close>

definition power_limit_read :: "'s platform \<Rightarrow> power_domain_t \<Rightarrow> nat option \<Rightarrow> 's world \<Rightarrow>
    (errstr + u64 \<times> u64 \<times> u64) \<times> 's world" where
  "power_limit_read c domain m w =
     (case (if msr_addr domain = 0 then (True, None, w)
            else case rd c (msr_addr domain) w of
                   (None, w') \<Rightarrow> (False, None, w')
                 | (Some v, w') \<Rightarrow> (True, Some v, w')) of
        (False, _, w1) \<Rightarrow> (Inl Strerror, w1)
      | (True, msr_limit, w1) \<Rightarrow>
         (case (if mem_addr domain = 0 then (True, None, w1)
                else case safe_rw c m None w1 of
                       (None, w') \<Rightarrow> (False, None, w')
                     | (Some v, w') \<Rightarrow> (True, Some v, w')) of
            (False, _, w2) \<Rightarrow> (Inl (Literal ''Segmentation fault''), w2)
          | (True, mem_limit, w2) \<Rightarrow>
             (case rd c (MSR_ADDR_UNITS c) w2 of
                (None, w3) \<Rightarrow> (Inl Strerror, w3)
              | (Some units, w3) \<Rightarrow>
                 (case (msr_limit, mem_limit) of
                    (None, None) \<Rightarrow> (Inl (Literal ''No method available''), w3)
                  | (None, Some v) \<Rightarrow> (Inr (v, v, units), w3)
                  | (Some v, None) \<Rightarrow> (Inr (v, v, units), w3)
                  | (Some v, Some v') \<Rightarrow> (Inr (v, v', units), w3)))))"

text \<open>Lines 176 and 177.\<close>

definition power_unit_of :: "u64 \<Rightarrow> int" where
  "power_unit_of units = f2i (fadd (exp2f (fl32 (of_nat (unat (units AND 0xf))))) (1 / 2))"

definition time_unit_of :: "u64 \<Rightarrow> int" where
  "time_unit_of units =
     f2i (fadd (exp2f (fl32 (of_nat (unat (drop_bit 16 units AND 0xf))))) (1 / 2))"

text \<open>Lines 180 to 188: the clamped request in raw units, and the value with both power
  fields replaced.  The division of two positive \<open>int\<close>s truncates.\<close>

definition power_term :: "int \<Rightarrow> int \<Rightarrow> u64" where
  "power_term requested power_unit =
     (let max_power = 0x7fff div power_unit
      in word_of_int (if requested < 0 then 0
                      else if requested > max_power then max_power
                      else requested * power_unit))"

definition power_terms_value :: "u64 \<Rightarrow> power_limit_t \<Rightarrow> int \<Rightarrow> u64" where
  "power_terms_value msr_limit pwr power_unit =
     (let masked = msr_limit AND 0xffff8000ffff8000;
          short_term = power_term (short_term pwr) power_unit;
          long_term = power_term (long_term pwr) power_unit
      in masked OR push_bit 32 short_term OR long_term)"

text \<open>Lines 189 to 201.\<close>

definition power_limit_value :: "u64 \<Rightarrow> power_limit_t \<Rightarrow> int \<Rightarrow> int \<Rightarrow> u64" where
  "power_limit_value msr_limit pwr power_unit time_unit =
     (let value = power_terms_value msr_limit pwr power_unit;
          value =
            (if short_time_window pwr > 0
             then (value AND 0xff01ffffffffffff) OR
                  push_bit 48 (word_of_int (power_from_seconds (short_time_window pwr) time_unit))
             else value)
      in if long_time_window pwr > 0
         then (value AND 0xffffffffff01ffff) OR
              push_bit 16 (word_of_int (power_from_seconds (long_time_window pwr) time_unit))
         else value)"

text \<open>Lines 179 to 217: the limits after the write or the comparison, and the error.\<close>

definition power_limit_write :: "'s platform \<Rightarrow> power_domain_t \<Rightarrow> power_limit_t \<Rightarrow>
    nat option \<Rightarrow> bool \<Rightarrow> u64 \<times> u64 \<times> u64 \<Rightarrow> bool \<times> 's world \<Rightarrow>
    (errstr option \<times> u64 \<times> u64) \<times> bool \<times> 's world" where
  "power_limit_write c domain pwr m write = (\<lambda>(msr_limit, mem_limit, units) (nll, w).
     if write then
       (let value = power_limit_value msr_limit pwr (power_unit_of units) (time_unit_of units)
        in case (if msr_addr domain = 0 then (True, w) else wr c (msr_addr domain) value w) of
             (False, w1) \<Rightarrow> ((Some Strerror, msr_limit, mem_limit), nll, w1)
           | (True, w1) \<Rightarrow>
               (case (if mem_addr domain = 0 then (Some value, w1)
                      else safe_rw c m (Some value) w1) of
                  (None, w2) \<Rightarrow>
                    ((Some (Literal ''Segmentation fault''), msr_limit, mem_limit), nll, w2)
                | (Some _, w2) \<Rightarrow> ((None, value, value), nll, w2)))
     else if msr_limit \<noteq> mem_limit then
       (case NEW_LINE nll w of
          (nll', w') \<Rightarrow> ((None, msr_limit, mem_limit), nll', print Power_not_equal w'))
     else ((None, msr_limit, mem_limit), nll, w))"

text \<open>The conversion of a \<open>uint64_t\<close> to \<open>int\<close> keeps the low 32 bits.\<close>

definition u64_to_int :: "u64 \<Rightarrow> int" where
  "u64_to_int x = sint (ucast x :: 32 word)"

text \<open>Lines 219 to 241.\<close>

definition power_limit_report :: "power_domain_t \<Rightarrow> u64 \<Rightarrow> errstr option \<times> u64 \<times> u64 \<Rightarrow>
    bool \<times> 's world \<Rightarrow> 's world" where
  "power_limit_report domain units = (\<lambda>(errstr, msr_limit, mem_limit) (nll, w).
     let power_unit = power_unit_of units;
         time_unit = time_unit_of units;
         (nll, w) = NEW_LINE nll w
     in case errstr of
          Some e \<Rightarrow> print (Power_write_failed (name domain) e) w
        | None \<Rightarrow>
            if nl w \<noteq> None then
              (let w = (if drop_bit 63 msr_limit AND 0x1 \<noteq> 0
                        then print (Power_locked (name domain)) w else w);
                   short_term =
                     u64_to_int ((drop_bit 32 msr_limit AND 0x7fff) div word_of_int power_unit);
                   long_term = u64_to_int ((msr_limit AND 0x7fff) div word_of_int power_unit);
                   short_term_enabled = (drop_bit 47 msr_limit AND 1 \<noteq> 0);
                   long_term_enabled = (drop_bit 15 msr_limit AND 1 \<noteq> 0);
                   short_term_window =
                     power_to_seconds (u64_to_int (drop_bit 48 msr_limit)) time_unit;
                   long_term_window =
                     power_to_seconds (u64_to_int (drop_bit 16 msr_limit)) time_unit
               in print (Long_term (name domain) long_term long_term_window long_term_enabled)
                    (print (Short_term (name domain) short_term short_term_window
                       short_term_enabled) w))
            else w)"

text \<open>\<open>power_limit\<close>, on the request \<open>config->power[index]\<close> (here \<open>pwr\<close>) and the domain
  \<open>power_domains[index]\<close>.\<close>

definition power_limit :: "'s platform \<Rightarrow> power_limit_t \<Rightarrow> power_domain_t \<Rightarrow> bool \<Rightarrow>
    's world \<Rightarrow> bool \<times> 's world" where
  "power_limit c pwr domain write w =
     (if apply_it pwr then
        (let m = (case mem pwr of
                    None \<Rightarrow> None
                  | Some p \<Rightarrow> Some (p + (mem_addr domain AND MAP_MASK c)))
         in case power_limit_read c domain m w of
              (Inl e, w1) \<Rightarrow>
                (case NEW_LINE False w1 of
                   (nll, w2) \<Rightarrow> (False, print (Power_read_failed (name domain) e) w2))
            | (Inr (msr_limit, mem_limit, units), w1) \<Rightarrow>
                (case power_limit_write c domain pwr m write (msr_limit, mem_limit, units)
                        (False, w1) of
                   ((errstr, limits), nllw) \<Rightarrow>
                     (errstr = None, power_limit_report domain units (errstr, limits) nllw)))
      else (True, w))"

section \<open>Thermal offset\<close>

text \<open>Lines 255 to 267 of \<open>tjoffset\<close>: the write, and \<open>errstr\<close> after it.  The
  conversion to \<open>uint64_t\<close> truncates; of a magnitude of \<open>2 ^ 64\<close> or more it is
  undefined in C, and the value is 0 here, which is what the conversion sequence of the
  x86-64 compilers leaves.\<close>

definition tjoffset_write :: "'s platform \<Rightarrow> real \<Rightarrow> bool \<Rightarrow> 's world \<Rightarrow>
    errstr option \<times> 's world" where
  "tjoffset_write c tj write w =
     (if write then
        (case rd c (MSR_ADDR_TEMPERATURE c) w of
           (Some limit, w') \<Rightarrow>
             (let offset = (if \<bar>tj\<bar> < 2 ^ 64 then word_of_int (f2i \<bar>tj\<bar>) else 0 :: u64);
                  offset = (if offset > 0x3f then 0x3f else offset);
                  limit = (limit AND 0xffffffffc0ffffff) OR push_bit 24 offset
              in case wr c (MSR_ADDR_TEMPERATURE c) limit w' of
                   (False, w'') \<Rightarrow> (Some Strerror, w'')
                 | (True, w'') \<Rightarrow> (None, w''))
         | (None, w') \<Rightarrow> (Some Strerror, w'))
      else (None, w))"

text \<open>\<open>tjoffset\<close>, on \<open>config->tjoffset_apply\<close> and \<open>config->tjoffset\<close> (a \<open>float\<close>).\<close>

definition tjoffset :: "'s platform \<Rightarrow> bool \<Rightarrow> real \<Rightarrow> bool \<Rightarrow> 's world \<Rightarrow> bool \<times> 's world" where
  "tjoffset c tjoffset_apply tj write w =
     (if tjoffset_apply then
        (case tjoffset_write c tj write w of
           (errstr, w1) \<Rightarrow>
             (case NEW_LINE False w1 of
                (nll, w2) \<Rightarrow>
                  (case errstr of
                     Some e \<Rightarrow> (False, print (Tj_write_failed e) w2)
                   | None \<Rightarrow>
                       (True,
                        if nl w2 \<noteq> None then
                          (case rd c (MSR_ADDR_TEMPERATURE c) w2 of
                             (Some limit, w3) \<Rightarrow>
                               print (Tj_offset
                                 (u64_to_int (drop_bit 24 (limit AND 0x3f000000)))) w3
                           | (None, w3) \<Rightarrow> print (Tj_read_failed errstr) w3)
                        else w2))))
      else (True, w))"

section \<open>The voltage-offset applier as the specification words it\<close>

text \<open>
  Following the spec's words (section 4.3, steps 2 to 4), not the source: what one target
  attempts on the machine \<open>d\<close>.  If writing is requested, the write-value is written to
  the voltage-control register, "a precondition for the subsequent read-back"; then the
  read-request is written and the register read.  The result is the outcome of step 4
  ("write succeeded (or writing was not requested), the read-request/read succeeded, and,
  only when writing, the written and read-back low 32 bits match exactly"), the accesses
  attempted, in order, and the machine after them.
\<close>

definition target_attempt_spec :: "'s platform \<Rightarrow> bool \<Rightarrow> uv_list_t \<Rightarrow> 's \<Rightarrow> bool \<times> event list \<times> 's" where
  "target_attempt_spec c write uv d =
     (let a = MSR_ADDR_VOLTAGE c;
          (written, es, d1) =
             (if write then (case pwrite c d a (uv_wrval uv) of
                               (ok, d') \<Rightarrow> (ok, [Pwrite a (uv_wrval uv)], d'))
              else (True, [], d))
      in if written then
           (case pwrite c d1 a (uv_rdval uv) of
              (False, d2) \<Rightarrow> (False, es @ [Pwrite a (uv_rdval uv)], d2)
            | (True, d2) \<Rightarrow>
                (case pread c d2 a of
                   (None, d3) \<Rightarrow> (False, es @ [Pwrite a (uv_rdval uv), Pread a], d3)
                 | (Some v, d3) \<Rightarrow>
                     (if write then v AND 0xffffffff = uv_wrval uv AND 0xffffffff else True,
                      es @ [Pwrite a (uv_rdval uv), Pread a], d3)))
         else (False, es, d1))"

text \<open>
  Following the spec's words (the closing sentence of section 4.3): "all targets are always
  attempted", each on the machine the one before has left, whatever the earlier outcomes:
  the outcome and the accesses of every target, in order.
\<close>

fun targets_attempt_spec :: "'s platform \<Rightarrow> bool \<Rightarrow> uv_list_t list \<Rightarrow> 's \<Rightarrow>
    (bool \<times> event list) list \<times> 's" where
  "targets_attempt_spec c write [] d = ([], d)"
| "targets_attempt_spec c write (u # us) d =
     (case target_attempt_spec c write u d of
        (ok, es, d') \<Rightarrow>
          (case targets_attempt_spec c write us d' of
             (rs, d'') \<Rightarrow> ((ok, es) # rs, d'')))"

section \<open>Reading the printed lines and the logged accesses\<close>

text \<open>The target a printed line reports on, and whether it reports success.\<close>

fun uv_report :: "line \<Rightarrow> (string \<times> int \<times> bool) option" where
  "uv_report (Uv_error t i e) = Some (t, i, False)"
| "uv_report (Uv_value t i v) = Some (t, i, True)"
| "uv_report _ = None"

fun uv_reports :: "line list \<Rightarrow> (string \<times> int \<times> bool) list" where
  "uv_reports [] = []"
| "uv_reports (l # ls) = (case uv_report l of None \<Rightarrow> uv_reports ls | Some r \<Rightarrow> r # uv_reports ls)"

text \<open>An access to the register file, as opposed to the mapped memory.\<close>

definition msr_access :: "event \<Rightarrow> bool" where
  "msr_access e = (case e of Pread a \<Rightarrow> True | Pwrite a v \<Rightarrow> True | _ \<Rightarrow> False)"

text \<open>What fits the 7-bit time-window field at bits 1 to 7 of the byte that the masks
  \<open>0xff01ffffffffffff\<close> and \<open>0xffffffffff01ffff\<close> clear.\<close>

definition time_field :: "int \<Rightarrow> bool" where
  "time_field t \<longleftrightarrow> 0 \<le> t \<and> t < 2 ^ 8 \<and> even t"

section \<open>Machines for the examples\<close>

text \<open>A machine on which every access fails.\<close>

definition dead_machine :: "unit platform" where
  "dead_machine = \<lparr>MSR_ADDR_VOLTAGE = 0x150, MSR_ADDR_UNITS = 0x606,
     MSR_ADDR_TEMPERATURE = 0x1a2, MAP_MASK = 0xfff,
     pread = (\<lambda>s a. (None, s)), pwrite = (\<lambda>s a v. (False, s)),
     safe_rw_read = (\<lambda>s p. (None, s)), safe_rw_write = (\<lambda>s p v. (False, s))\<rparr>"

text \<open>A machine whose registers and memory are one array: reads return what it holds,
  writes store, and only the null pointer faults.\<close>

definition array_machine :: "(nat \<Rightarrow> u64) platform" where
  "array_machine = \<lparr>MSR_ADDR_VOLTAGE = 0x150, MSR_ADDR_UNITS = 0x606,
     MSR_ADDR_TEMPERATURE = 0x1a2, MAP_MASK = 0xfff,
     pread = (\<lambda>s a. (Some (s a), s)), pwrite = (\<lambda>s a v. (True, s(a := v))),
     safe_rw_read = (\<lambda>s p. (case p of None \<Rightarrow> None | Some q \<Rightarrow> Some (s q), s)),
     safe_rw_write = (\<lambda>s p v. (case p of None \<Rightarrow> (False, s) | Some q \<Rightarrow> (True, s(q := v))))\<rparr>"

text \<open>A machine that accepts every write and keeps none: every read returns 1.\<close>

definition stuck_machine :: "unit platform" where
  "stuck_machine = \<lparr>MSR_ADDR_VOLTAGE = 0x150, MSR_ADDR_UNITS = 0x606,
     MSR_ADDR_TEMPERATURE = 0x1a2, MAP_MASK = 0xfff,
     pread = (\<lambda>s a. (Some 1, s)), pwrite = (\<lambda>s a v. (True, s)),
     safe_rw_read = (\<lambda>s p. (Some 1, s)), safe_rw_write = (\<lambda>s p v. (True, s))\<rparr>"

text \<open>A machine whose first read succeeds and whose later reads fail; the state counts
  the reads.\<close>

definition one_read_machine :: "nat platform" where
  "one_read_machine = \<lparr>MSR_ADDR_VOLTAGE = 0x150, MSR_ADDR_UNITS = 0x606,
     MSR_ADDR_TEMPERATURE = 0x1a2, MAP_MASK = 0xfff,
     pread = (\<lambda>s a. (if s = 0 then Some 0 else None, Suc s)), pwrite = (\<lambda>s a v. (True, s)),
     safe_rw_read = (\<lambda>s p. (None, s)), safe_rw_write = (\<lambda>s p v. (False, s))\<rparr>"

text \<open>A request that changes nothing but is applied.\<close>

definition no_request :: power_limit_t where
  "no_request = \<lparr>apply_it = True, short_term = 0, short_time_window = 0, long_term = 0,
     long_time_window = 0, mem = None\<rparr>"

section \<open>Properties of the rounding\<close>

lemma rne_of_int: "rne (of_int n) = n"
  by (simp add: rne_def)

lemma rne_err: "\<bar>of_int (rne y) - y\<bar> \<le> 1 / 2"
  unfolding rne_def Let_def by (auto simp: abs_le_iff)

lemma rne_ge_floor: "\<lfloor>y\<rfloor> \<le> rne y"
  unfolding rne_def Let_def by simp

lemma rne_le_floor1: "rne y \<le> \<lfloor>y\<rfloor> + 1"
  unfolding rne_def Let_def by simp

lemma rne_mono: 
  assumes "x \<le> y" shows "rne x \<le> rne y"
proof (cases "\<lfloor>x\<rfloor> = \<lfloor>y\<rfloor>")
  case True
  have "x - of_int \<lfloor>y\<rfloor> \<le> y - of_int \<lfloor>y\<rfloor>" using assms by simp
  then show ?thesis unfolding rne_def Let_def True by simp
next
  case False
  with assms have "\<lfloor>x\<rfloor> < \<lfloor>y\<rfloor>" by (simp add: floor_mono le_neq_trans)
  then show ?thesis using rne_le_floor1[of x] rne_ge_floor[of y] by linarith
qed

lemma floor_uminus_nonint:
  assumes "y \<notin> \<int>" shows "\<lfloor>- y\<rfloor> = - \<lfloor>y\<rfloor> - 1"
proof -
  have "of_int \<lfloor>y\<rfloor> \<noteq> y" using assms by (metis Ints_of_int)
  then have "of_int \<lfloor>y\<rfloor> < y" using of_int_floor_le[of y] by linarith
  moreover have "y < of_int \<lfloor>y\<rfloor> + 1" by linarith
  ultimately show ?thesis by (intro floor_unique) auto
qed

lemma rne_uminus: "rne (- y) = - rne y"
proof (cases "y \<in> \<int>")
  case True
  then obtain n where y: "y = of_int n" by (auto elim: Ints_cases)
  have "rne (of_int (- n)) = - n" by (rule rne_of_int)
  then show ?thesis by (simp add: y rne_of_int)
next
  case False
  note f = floor_uminus_nonint[OF False]
  have "of_int \<lfloor>y\<rfloor> \<noteq> y" using False by (metis Ints_of_int)
  then have fr: "y - of_int \<lfloor>y\<rfloor> > 0" using of_int_floor_le[of y] by linarith
  show ?thesis
    unfolding rne_def Let_def f using fr by auto
qed

lemma binade:
  assumes "x \<noteq> 0"
  shows "2 powr of_int \<lfloor>log 2 \<bar>x\<bar>\<rfloor> \<le> \<bar>x\<bar>" and "\<bar>x\<bar> < 2 powr (of_int \<lfloor>log 2 \<bar>x\<bar>\<rfloor> + 1)"
proof -
  have px: "0 < \<bar>x\<bar>" using assms by simp
  have "2 powr of_int \<lfloor>log 2 \<bar>x\<bar>\<rfloor> \<le> 2 powr log 2 \<bar>x\<bar>"
    by (rule powr_mono) simp_all
  then show "2 powr of_int \<lfloor>log 2 \<bar>x\<bar>\<rfloor> \<le> \<bar>x\<bar>" using px by simp
  have "log 2 \<bar>x\<bar> < of_int \<lfloor>log 2 \<bar>x\<bar>\<rfloor> + 1" by linarith
  then have "2 powr log 2 \<bar>x\<bar> < 2 powr (of_int \<lfloor>log 2 \<bar>x\<bar>\<rfloor> + 1)"
    by (rule powr_less_mono) simp
  then show "\<bar>x\<bar> < 2 powr (of_int \<lfloor>log 2 \<bar>x\<bar>\<rfloor> + 1)" using px by simp
qed

lemma floor_log2_unique:
  assumes "2 powr of_int k \<le> x" and "x < 2 powr (of_int k + 1)"
  shows "\<lfloor>log 2 x\<rfloor> = k"
proof -
  have "(0::real) < 2 powr of_int k" by simp
  with assms(1) have px: "0 < x" by linarith
  have "log 2 (2 powr of_int k) \<le> log 2 x"
    using assms(1) px by (subst log_le_cancel_iff) simp_all
  then have a: "of_int k \<le> log 2 x" by simp
  have "log 2 x < log 2 (2 powr (of_int k + 1))"
    using assms(2) px by (subst log_less_cancel_iff) simp_all
  then have b: "log 2 x < of_int k + 1" by simp
  from a b show ?thesis by (intro floor_unique) auto
qed

lemma fl32_0: "fl32 0 = 0"
  by (simp add: fl32_def)

lemma fl32_uminus: "fl32 (- x) = - fl32 x"
  by (simp add: fl32_def Let_def rne_uminus)

lemma fl32_pos_bounds:
  assumes "0 < x"
  shows "2 powr of_int \<lfloor>log 2 x\<rfloor> \<le> fl32 x" and "fl32 x \<le> 2 powr (of_int \<lfloor>log 2 x\<rfloor> + 1)"
proof -
  define e where "e = \<lfloor>log 2 x\<rfloor>"
  define s :: real where "s = 2 powr of_int (e - 23)"
  have sp: "0 < s" by (simp add: s_def)
  have x0: "x \<noteq> 0" "\<bar>x\<bar> = x" using assms by auto
  have lo: "2 powr of_int e \<le> x" and hi: "x < 2 powr (of_int e + 1)"
    using binade[OF x0(1)] by (simp_all add: x0(2) e_def)
  have s23: "2 powr of_int e = 2 ^ 23 * s"
    unfolding s_def by (simp add: powr_diff)
  have s24: "2 powr (of_int e + 1) = 2 ^ 24 * s"
    unfolding s_def by (simp add: powr_diff powr_add)
  have "of_int (2 ^ 23) \<le> x / s" using lo sp by (simp add: s23 pos_le_divide_eq)
  then have "rne (of_int (2 ^ 23)) \<le> rne (x / s)" by (rule rne_mono)
  then have r1: "2 ^ 23 \<le> rne (x / s)" by (simp only: rne_of_int)
  have "x / s \<le> of_int (2 ^ 24)" using hi sp by (simp add: s24 pos_divide_le_eq)
  then have "rne (x / s) \<le> rne (of_int (2 ^ 24))" by (rule rne_mono)
  then have r2: "rne (x / s) \<le> 2 ^ 24" by (simp only: rne_of_int)
  have f: "fl32 x = of_int (rne (x / s)) * s"
    using x0 by (simp add: fl32_def Let_def e_def s_def)
  have "(2 ^ 23 :: real) \<le> of_int (rne (x / s))" using r1 by (metis of_int_le_iff of_int_numeral of_int_power)
  then have "2 ^ 23 * s \<le> of_int (rne (x / s)) * s" using sp by simp
  then show "2 powr of_int \<lfloor>log 2 x\<rfloor> \<le> fl32 x" by (simp add: f s23 flip: e_def)
  have "of_int (rne (x / s)) \<le> (2 ^ 24 :: real)" using r2 by (metis of_int_le_iff of_int_numeral of_int_power)
  then have "of_int (rne (x / s)) * s \<le> 2 ^ 24 * s" using sp by simp
  then show "fl32 x \<le> 2 powr (of_int \<lfloor>log 2 x\<rfloor> + 1)" by (simp add: f s24 flip: e_def)
qed

lemma fl32_pos: "0 < x \<Longrightarrow> 0 < fl32 x"
  using fl32_pos_bounds(1)[of x] powr_gt_zero[of 2 "of_int \<lfloor>log 2 x\<rfloor>"] by linarith

lemma fl32_mono_pos:
  assumes "0 < x" and "x \<le> y"
  shows "fl32 x \<le> fl32 y"
proof (cases "\<lfloor>log 2 x\<rfloor> = \<lfloor>log 2 y\<rfloor>")
  case True
  define s :: real where "s = 2 powr of_int (\<lfloor>log 2 y\<rfloor> - 23)"
  have sp: "0 < s" by (simp add: s_def)
  have fx: "fl32 x = of_int (rne (x / s)) * s"
    using assms by (simp add: fl32_def Let_def s_def True)
  have fy: "fl32 y = of_int (rne (y / s)) * s"
    using assms by (simp add: fl32_def Let_def s_def)
  have "x / s \<le> y / s" using assms sp by (simp add: divide_right_mono)
  then have "rne (x / s) \<le> rne (y / s)" by (rule rne_mono)
  then show ?thesis using sp by (simp add: fx fy)
next
  case False
  have "log 2 x \<le> log 2 y" using assms by simp
  then have "\<lfloor>log 2 x\<rfloor> \<le> \<lfloor>log 2 y\<rfloor>" by (rule floor_mono)
  with False have "\<lfloor>log 2 x\<rfloor> + 1 \<le> \<lfloor>log 2 y\<rfloor>" by simp
  then have "of_int \<lfloor>log 2 x\<rfloor> + 1 \<le> (of_int \<lfloor>log 2 y\<rfloor> :: real)" by linarith
  then have "2 powr (of_int \<lfloor>log 2 x\<rfloor> + 1) \<le> (2::real) powr of_int \<lfloor>log 2 y\<rfloor>"
    by (rule powr_mono) simp
  moreover have "fl32 x \<le> 2 powr (of_int \<lfloor>log 2 x\<rfloor> + 1)"
    using assms by (intro fl32_pos_bounds) simp
  moreover have "2 powr of_int \<lfloor>log 2 y\<rfloor> \<le> fl32 y"
    using assms by (intro fl32_pos_bounds) simp
  ultimately show ?thesis by linarith
qed

lemma fl32_mono:
  assumes "x \<le> y" shows "fl32 x \<le> fl32 y"
proof -
  consider "0 < x" | "x \<le> 0" "0 \<le> y" | "y < 0" by linarith
  then show ?thesis
  proof cases
    case 1
    then show ?thesis using assms by (rule fl32_mono_pos)
  next
    case 2
    have "fl32 x \<le> 0"
    proof (cases "x = 0")
      case True then show ?thesis by (simp add: fl32_0)
    next
      case False
      with 2 have "0 < - x" by simp
      then have "0 < fl32 (- x)" by (rule fl32_pos)
      then show ?thesis by (simp add: fl32_uminus)
    qed
    moreover have "0 \<le> fl32 y"
    proof (cases "y = 0")
      case True then show ?thesis by (simp add: fl32_0)
    next
      case False
      with 2 have "0 < y" by simp
      then show ?thesis using fl32_pos[of y] by simp
    qed
    ultimately show ?thesis by linarith
  next
    case 3
    then have "0 < - y" "- y \<le> - x" using assms by simp_all
    then have "fl32 (- y) \<le> fl32 (- x)" by (rule fl32_mono_pos)
    then show ?thesis by (simp add: fl32_uminus)
  qed
qed

lemma fl32_err:
  assumes "x \<noteq> 0"
  shows "\<bar>fl32 x - x\<bar> \<le> 2 powr of_int (\<lfloor>log 2 \<bar>x\<bar>\<rfloor> - 24)"
proof -
  define s :: real where "s = 2 powr of_int (\<lfloor>log 2 \<bar>x\<bar>\<rfloor> - 23)"
  have sp: "0 < s" by (simp add: s_def)
  have f: "fl32 x = of_int (rne (x / s)) * s"
    using assms by (simp add: fl32_def Let_def s_def)
  have "fl32 x - x = (of_int (rne (x / s)) - x / s) * s"
    using sp by (simp add: f algebra_simps)
  then have "\<bar>fl32 x - x\<bar> = \<bar>of_int (rne (x / s)) - x / s\<bar> * s"
    using sp by (simp add: abs_mult)
  also have "\<dots> \<le> 1 / 2 * s"
    using rne_err[of "x / s"] sp by (intro mult_right_mono) simp_all
  also have "1 / 2 * s = 2 powr of_int (\<lfloor>log 2 \<bar>x\<bar>\<rfloor> - 24)"
    unfolding s_def by (simp add: powr_diff)
  finally show ?thesis .
qed

lemma fl32_rel_err: "\<bar>fl32 x - x\<bar> \<le> \<bar>x\<bar> / 2 ^ 24"
proof (cases "x = 0")
  case True
  then show ?thesis by (simp add: fl32_0)
next
  case False
  have "(2::real) powr of_int (\<lfloor>log 2 \<bar>x\<bar>\<rfloor> - 24) = 2 powr of_int \<lfloor>log 2 \<bar>x\<bar>\<rfloor> / 2 ^ 24"
    by (simp add: powr_diff)
  also have "\<dots> \<le> \<bar>x\<bar> / 2 ^ 24"
    using binade(1)[OF False] by (simp add: divide_right_mono)
  finally show ?thesis using fl32_err[OF False] by linarith
qed

lemma fl32_exact:
  assumes "x / 2 powr of_int (\<lfloor>log 2 \<bar>x\<bar>\<rfloor> - 23) = of_int k"
  shows "fl32 x = x"
proof (cases "x = 0")
  case True
  then show ?thesis by (simp add: fl32_0)
next
  case False
  have a: "x / 2 powr (of_int \<lfloor>log 2 \<bar>x\<bar>\<rfloor> - 23) = of_int k" using assms by simp
  have "fl32 x = of_int (rne (of_int k)) * 2 powr of_int (\<lfloor>log 2 \<bar>x\<bar>\<rfloor> - 23)"
    using False by (simp add: fl32_def Let_def a)
  also have "\<dots> = x / 2 powr of_int (\<lfloor>log 2 \<bar>x\<bar>\<rfloor> - 23) * 2 powr of_int (\<lfloor>log 2 \<bar>x\<bar>\<rfloor> - 23)"
    by (simp only: rne_of_int assms)
  also have "\<dots> = x" by simp
  finally show ?thesis .
qed

lemma fl32_scale: "fl32 (x * 2 powr of_int k) = fl32 x * 2 powr of_int k"
proof (cases "x = 0")
  case True
  then show ?thesis by (simp add: fl32_0)
next
  case False
  have "log 2 \<bar>x * 2 powr of_int k\<bar> = log 2 \<bar>x\<bar> + of_int k"
    using False by (simp add: abs_mult log_mult)
  then have e: "\<lfloor>log 2 \<bar>x * 2 powr of_int k\<bar>\<rfloor> = \<lfloor>log 2 \<bar>x\<bar>\<rfloor> + k" by simp
  have m: "x * 2 powr of_int k / 2 powr of_int (\<lfloor>log 2 \<bar>x\<bar>\<rfloor> + k - 23)
           = x / 2 powr of_int (\<lfloor>log 2 \<bar>x\<bar>\<rfloor> - 23)"
    by (simp add: powr_diff powr_add)
  have "2 powr of_int (\<lfloor>log 2 \<bar>x\<bar>\<rfloor> + k - 23) = 2 powr of_int (\<lfloor>log 2 \<bar>x\<bar>\<rfloor> - 23) * (2::real) powr of_int k"
    by (simp add: powr_diff powr_add)
  then show ?thesis using False
    by (simp add: fl32_def Let_def e m del: of_int_add of_int_diff)
qed

lemma fl32_of_int_lt:
  assumes "\<bar>n\<bar> < 2 ^ 24"
  shows "fl32 (of_int n) = of_int n"
proof (cases "n = 0")
  case True
  then show ?thesis by (simp add: fl32_0)
next
  case False
  define e where "e = \<lfloor>log 2 \<bar>of_int n :: real\<bar>\<rfloor>"
  have n0: "(of_int n :: real) \<noteq> 0" using False by simp
  have "2 powr of_int e \<le> \<bar>of_int n :: real\<bar>" unfolding e_def by (rule binade(1)[OF n0])
  also have "\<dots> < 2 ^ 24" using assms by (metis of_int_abs of_int_less_iff of_int_numeral of_int_power)
  also have "(2::real) ^ 24 = 2 powr of_int 24" by simp
  finally have "(of_int e :: real) < of_int 24" by (simp only: powr_less_cancel_iff[of 2] one_less_numeral_iff semiring_norm)
  then have e23: "e \<le> 23" by simp
  have "1 \<le> \<bar>of_int n :: real\<bar>" using False by (metis of_int_abs of_int_1_le_iff abs_ge_zero zero_less_abs_iff int_one_le_iff_zero_less)
  then have "(2::real) powr 0 < 2 powr (of_int e + 1)" using binade(2)[OF n0] by (simp add: e_def)
  then have "(0::real) < of_int e + 1" by (simp only: powr_less_cancel_iff[of 2] one_less_numeral_iff semiring_norm)
  then have e0: "0 \<le> e" by linarith
  have "(of_int (e - 23) :: real) = - real (nat (23 - e))" using e23 by simp
  then have "(2::real) powr of_int (e - 23) = 2 powr (- real (nat (23 - e)))" by (simp only:)
  also have "\<dots> = 1 / 2 ^ nat (23 - e)"
    by (simp add: powr_minus powr_realpow divide_inverse)
  finally have "(2::real) powr of_int (e - 23) = 1 / 2 ^ nat (23 - e)" .
  then have "of_int n / 2 powr of_int (e - 23) = (of_int (n * 2 ^ nat (23 - e)) :: real)"
    by simp
  then show ?thesis unfolding e_def by (rule fl32_exact)
qed

lemma fl32_dyadic:
  assumes "\<bar>n\<bar> < 2 ^ 24"
  shows "fl32 (of_int n * 2 powr of_int k) = of_int n * 2 powr of_int k"
  by (simp only: fl32_scale fl32_of_int_lt[OF assms])

lemma f2i_of_int: "f2i (of_int n) = n"
  by (simp add: f2i_def)

section \<open>Exactly representable numbers\<close>

lemma fl32_half:
  assumes "\<bar>n\<bar> < 2 ^ 24" shows "fl32 (of_int n / 2) = of_int n / 2"
proof -
  have h: "(2::real) powr of_int (- 1) = 1 / 2" by (simp add: powr_neg_one)
  have "fl32 (of_int n * (1 / 2)) = of_int n * (1 / 2)"
    using fl32_dyadic[OF assms, of "- 1"] unfolding h .
  then show ?thesis by simp
qed

lemma fl32_numeral [simp]:
  "\<bar>numeral k :: int\<bar> < 2 ^ 24 \<Longrightarrow> fl32 (numeral k) = numeral k"
  using fl32_of_int_lt[of "numeral k"] by simp

lemma fl32_1 [simp]: "fl32 1 = 1"
  using fl32_of_int_lt[of 1] by simp

lemma i2f_exact: "\<bar>n\<bar> < 2 ^ 24 \<Longrightarrow> i2f n = of_int n"
  by (simp add: i2f_def fl32_of_int_lt)

lemma f1024_bounds: "1 \<le> f1024" "f1024 \<le> 1025 / 1000"
proof -
  have "fl32 1 \<le> fl32 (1024 / 1000)" by (rule fl32_mono) simp
  then show "1 \<le> f1024" by (simp add: f1024_def)
  have "\<bar>fl32 (1024 / 1000) - 1024 / 1000\<bar> \<le> \<bar>1024 / 1000\<bar> / 2 ^ 24" by (rule fl32_rel_err)
  moreover have "\<bar>1024 / 1000 :: real\<bar> / 2 ^ 24 \<le> 1 / 1000" by simp
  ultimately show "f1024 \<le> 1025 / 1000" unfolding f1024_def by linarith
qed

lemma fl32_pow2: "fl32 (2 ^ n) = 2 ^ n"
proof -
  have "fl32 (of_int 1 * 2 powr of_int (int n)) = of_int 1 * 2 powr of_int (int n)"
    by (rule fl32_dyadic) simp
  then show ?thesis by (simp add: powr_realpow)
qed

lemma fl32_int_pow2:
  assumes "\<bar>k\<bar> < 2 ^ 24"
  shows "fl32 (of_int k * 2 ^ n) = of_int k * 2 ^ n"
proof -
  have "fl32 (of_int k * 2 powr of_int (int n)) = of_int k * 2 powr of_int (int n)"
    using assms by (rule fl32_dyadic)
  then show ?thesis by (simp add: powr_realpow)
qed

lemma fl32_quarter:
  assumes "\<bar>n\<bar> < 2 ^ 24" shows "fl32 (of_int n / 4) = of_int n / 4"
proof -
  have h: "(2::real) powr of_int (- 2) = 1 / 4" by (simp add: powr_minus_divide)
  have "fl32 (of_int n * (1 / 4)) = of_int n * (1 / 4)"
    using fl32_dyadic[OF assms, of "- 2"] unfolding h .
  then show ?thesis by simp
qed

lemma fl32_eighth:
  assumes "\<bar>n\<bar> < 2 ^ 24" shows "fl32 (of_int n / 8) = of_int n / 8"
proof -
  have h: "(2::real) powr of_int (- 3) = 1 / 8" by (simp add: powr_minus_divide)
  have "fl32 (of_int n * (1 / 8)) = of_int n * (1 / 8)"
    using fl32_dyadic[OF assms, of "- 3"] unfolding h .
  then show ?thesis by simp
qed

lemma multiplier_exact:
  assumes "0 \<le> i" and "i \<le> 3"
  shows "fadd (i2f 1) (fdiv (i2f i) 4) = of_int (4 + i) / 4"
proof -
  have a: "fdiv (i2f i) 4 = of_int i / 4"
    using assms by (simp add: fdiv_def i2f_exact fl32_quarter)
  have b: "fl32 (of_int (4 + i) / 4) = of_int (4 + i) / 4"
    using assms by (intro fl32_quarter) simp
  have c: "i2f 1 = 1" by (simp add: i2f_exact)
  have d: "1 + real_of_int i / 4 = of_int (4 + i) / 4" by simp
  show ?thesis unfolding fadd_def a c d by (rule b)
qed

lemma fl32_4096:
  assumes "\<bar>n\<bar> < 2 ^ 24" shows "fl32 (of_int n / 4096) = of_int n / 4096"
proof -
  have h: "(2::real) powr of_int (- 12) = 1 / 4096" by (simp add: powr_minus_divide)
  have "fl32 (of_int n * (1 / 4096)) = of_int n * (1 / 4096)"
    using fl32_dyadic[OF assms, of "- 12"] unfolding h .
  then show ?thesis by simp
qed

lemma quarter_scaled:
  "fl32 (x / 4) = fl32 x * 2 powr of_int (- 2)"
proof -
  have h: "(2::real) powr of_int (- 2) = 1 / 4" by (simp add: powr_minus_divide)
  have "fl32 (x * 2 powr of_int (- 2)) = fl32 x * 2 powr of_int (- 2)" by (rule fl32_scale)
  then show ?thesis unfolding h by simp
qed

lemma units_field_exp:
  fixes f :: u64
  assumes "f \<le> 0xf"
  shows "f2i (fadd (exp2f (fl32 (of_nat (unat f)))) (1 / 2)) = 2 ^ unat f"
proof -
  define k where "k = unat f"
  have k: "k \<le> 15" using assms unfolding k_def by (simp add: word_le_nat_alt)
  have "\<bar>int k\<bar> < 2 ^ 24" using k by simp
  then have "fl32 (of_int (int k)) = of_int (int k)" by (rule fl32_of_int_lt)
  then have a: "fl32 (of_nat k) = of_nat k" by simp
  have b: "exp2f (of_nat k) = 2 ^ k"
    by (simp add: exp2f_def powr_realpow fl32_pow2)
  have "(2::int) ^ (k + 1) \<le> 2 ^ 16" using k by (intro power_increasing) simp_all
  then have "\<bar>2 ^ (k + 1) + 1 :: int\<bar> < 2 ^ 24" by simp
  then have h: "fl32 (of_int (2 ^ (k + 1) + 1) / 2) = of_int (2 ^ (k + 1) + 1) / 2"
    by (rule fl32_half)
  have h': "(of_int (2 ^ (k + 1) + 1) / 2 :: real) = 2 ^ k + 1 / 2" by simp
  have c: "fl32 (2 ^ k + 1 / 2) = 2 ^ k + 1 / 2" using h unfolding h' .
  have "\<lfloor>(2::real) ^ k + 1 / 2\<rfloor> = 2 ^ k"
    by (intro floor_unique) simp_all
  then have d: "f2i (2 ^ k + 1 / 2) = 2 ^ k" by (simp add: f2i_def)
  show ?thesis unfolding k_def[symmetric] a b fadd_def c d ..
qed

lemma power_unit_of_eq: "power_unit_of units = 2 ^ unat (units AND 0xf)"
  unfolding power_unit_of_def by (rule units_field_exp) (rule word_and_le1)

lemma time_unit_of_eq: "time_unit_of units = 2 ^ unat (drop_bit 16 units AND 0xf)"
  unfolding time_unit_of_def by (rule units_field_exp) (rule word_and_le1)

lemma units_A0E03: "power_unit_of 0xA0E03 = 8" "time_unit_of 0xA0E03 = 1024"
  by (simp_all add: power_unit_of_eq time_unit_of_eq)

section \<open>The printed lines and the logged accesses of each step\<close>

lemma NEW_LINE_nl: "NEW_LINE nll w = (nll', w') \<Longrightarrow> (nl w' = None) = (nl w = None)"
  by (auto simp: NEW_LINE_def print_def split: option.splits if_splits)

lemma NEW_LINE_dev: "NEW_LINE nll w = (nll', w') \<Longrightarrow> dev w' = dev w \<and> trace w' = trace w"
  by (auto simp: NEW_LINE_def print_def split: option.splits if_splits)

lemma NEW_LINE_out:
  "NEW_LINE nll w = (nll', w') \<Longrightarrow> out w' = out w \<or> out w' = out w @ [Blank]"
  by (auto simp: NEW_LINE_def print_def split: option.splits if_splits)

lemma uv_reports_append: "uv_reports (xs @ ys) = uv_reports xs @ uv_reports ys"
  by (induction xs) (auto split: option.splits)

lemma undervolt_it_effect:
  assumes "undervolt_it c uv (ctx, w) = (ctx', w')"
  shows "ctx_write ctx' = ctx_write ctx \<and>
         (\<exists>ls ok. out w' = out w @ ls \<and> uv_reports ls = [(uv_title uv, uv_index uv, ok)] \<and>
            ctx_success ctx' = (ctx_success ctx \<and> ok))"
proof -
  obtain ws w1 where a: "(if \<not> ctx_write ctx then (True, w)
          else wr c (MSR_ADDR_VOLTAGE c) (uv_wrval uv) w) = (ws, w1)"
    by (cases "(if \<not> ctx_write ctx then (True, w)
          else wr c (MSR_ADDR_VOLTAGE c) (uv_wrval uv) w)")
  obtain rb w2 where b: "(if \<not> ws then (None, w1)
             else case wr c (MSR_ADDR_VOLTAGE c) (uv_rdval uv) w1 of
                    (False, w') \<Rightarrow> (None, w')
                  | (True, w') \<Rightarrow> rd c (MSR_ADDR_VOLTAGE c) w') = (rb, w2)"
    by (cases "(if \<not> ws then (None, w1)
             else case wr c (MSR_ADDR_VOLTAGE c) (uv_rdval uv) w1 of
                    (False, w') \<Rightarrow> (None, w')
                  | (True, w') \<Rightarrow> rd c (MSR_ADDR_VOLTAGE c) w')")
  have o1: "out w1 = out w" using a by (auto simp: wr_def split: if_splits prod.splits)
  have o2: "out w2 = out w1" using b by (auto simp: wr_def rd_def split: if_splits prod.splits bool.splits)
  obtain nll w3 where n: "NEW_LINE (ctx_nll ctx) w2 = (nll, w3)" by (cases "NEW_LINE (ctx_nll ctx) w2")
  from NEW_LINE_out[OF n] o1 o2 have o3: "out w3 = out w \<or> out w3 = out w @ [Blank]" by simp
  show ?thesis
    using assms o3 unfolding undervolt_it_def
    by (auto simp: a b n Let_def print_def split: option.splits if_splits)
qed

lemma foreach_effect:
  "fold (undervolt_it c) uv (ctx, w) = (ctx', w') \<Longrightarrow>
     ctx_write ctx' = ctx_write ctx \<and>
     (\<exists>ls. out w' = out w @ ls \<and>
        map (\<lambda>(t, i, ok). (t, i)) (uv_reports ls) = map (\<lambda>u. (uv_title u, uv_index u)) uv \<and>
        ctx_success ctx' = (ctx_success ctx \<and> list_all (\<lambda>(t, i, ok). ok) (uv_reports ls)))"
proof (induction uv arbitrary: ctx w)
  case Nil
  then show ?case by auto
next
  case (Cons u uv)
  obtain ctx1 w1 where s: "undervolt_it c u (ctx, w) = (ctx1, w1)"
    by (cases "undervolt_it c u (ctx, w)")
  from undervolt_it_effect[OF s] obtain l1 ok where
    h: "ctx_write ctx1 = ctx_write ctx" "out w1 = out w @ l1"
       "uv_reports l1 = [(uv_title u, uv_index u, ok)]" "ctx_success ctx1 = (ctx_success ctx \<and> ok)"
    by blast
  from Cons.prems s have "fold (undervolt_it c) uv (ctx1, w1) = (ctx', w')" by simp
  from Cons.IH[OF this] obtain l2 where
    k: "ctx_write ctx' = ctx_write ctx1" "out w' = out w1 @ l2"
       "map (\<lambda>(t, i, ok). (t, i)) (uv_reports l2) = map (\<lambda>u. (uv_title u, uv_index u)) uv"
       "ctx_success ctx' = (ctx_success ctx1 \<and> list_all (\<lambda>(t, i, ok). ok) (uv_reports l2))"
    by blast
  have "out w' = out w @ (l1 @ l2)" using h k by simp
  moreover have "map (\<lambda>(t, i, ok). (t, i)) (uv_reports (l1 @ l2)) =
      map (\<lambda>u. (uv_title u, uv_index u)) (u # uv)"
    using h k by (simp add: uv_reports_append)
  moreover have "ctx_success ctx' =
      (ctx_success ctx \<and> list_all (\<lambda>(t, i, ok). ok) (uv_reports (l1 @ l2)))"
    using h k by (auto simp: uv_reports_append)
  moreover have "ctx_write ctx' = ctx_write ctx" using h k by simp
  ultimately show ?case by (intro conjI exI[of _ "l1 @ l2"])
qed

lemma undervolt_it_attempt:
  assumes "undervolt_it c uv (ctx, w) = (ctx', w')"
    and "target_attempt_spec c (ctx_write ctx) uv (dev w) = (ok, es, d)"
  shows "ctx_write ctx' = ctx_write ctx" and "ctx_success ctx' = (ctx_success ctx \<and> ok)"
    and "trace w' = trace w @ es" and "dev w' = d"
    and "take 1 es = [Pwrite (MSR_ADDR_VOLTAGE c)
                        (if ctx_write ctx then uv_wrval uv else uv_rdval uv)]"
    and "\<exists>ls. out w' = out w @ ls \<and> uv_reports ls = [(uv_title uv, uv_index uv, ok)]"
proof -
  obtain ws w1 where a: "(if \<not> ctx_write ctx then (True, w)
          else wr c (MSR_ADDR_VOLTAGE c) (uv_wrval uv) w) = (ws, w1)"
    by (cases "(if \<not> ctx_write ctx then (True, w)
          else wr c (MSR_ADDR_VOLTAGE c) (uv_wrval uv) w)")
  obtain rb w2 where b: "(if \<not> ws then (None, w1)
             else case wr c (MSR_ADDR_VOLTAGE c) (uv_rdval uv) w1 of
                    (False, w') \<Rightarrow> (None, w')
                  | (True, w') \<Rightarrow> rd c (MSR_ADDR_VOLTAGE c) w') = (rb, w2)"
    by (cases "(if \<not> ws then (None, w1)
             else case wr c (MSR_ADDR_VOLTAGE c) (uv_rdval uv) w1 of
                    (False, w') \<Rightarrow> (None, w')
                  | (True, w') \<Rightarrow> rd c (MSR_ADDR_VOLTAGE c) w')")
  obtain nll w3 where n: "NEW_LINE (ctx_nll ctx) w2 = (nll, w3)" by (cases "NEW_LINE (ctx_nll ctx) w2")
  define okc where "okc = (case rb of None \<Rightarrow> False
      | Some v \<Rightarrow> if ctx_write ctx then v AND 0xffffffff = uv_wrval uv AND 0xffffffff else True)"
  have t: "target_attempt_spec c (ctx_write ctx) uv (dev w) =
             (okc, drop (length (trace w)) (trace w2), dev w2) \<and>
           take (length (trace w)) (trace w2) = trace w \<and> out w2 = out w"
    using a b unfolding target_attempt_spec_def okc_def wr_def rd_def Let_def
    by (auto split: if_splits prod.splits bool.splits option.splits)
  have e: "ok = okc" "es = drop (length (trace w)) (trace w2)" "d = dev w2"
    using t assms(2) by simp_all
  have tr: "trace w2 = trace w @ es" using t e(2) by (metis append_take_drop_id)
  from NEW_LINE_dev[OF n] have d3: "dev w3 = dev w2" "trace w3 = trace w2" by simp_all
  from NEW_LINE_out[OF n] t have o3: "out w3 = out w \<or> out w3 = out w @ [Blank]" by simp
  have r: "(ctx', w') = (case (if okc then None else Some (if rb = None then Strerror else Literal ''Values do not equal'')) of
          Some e \<Rightarrow> (ctx\<lparr>ctx_success := False, ctx_nll := nll\<rparr>,
                     print (Uv_error (uv_title uv) (uv_index uv) e) w3)
        | None \<Rightarrow> (ctx\<lparr>ctx_nll := nll\<rparr>,
                   (case rb of
                      Some rdval' \<Rightarrow>
                        print (Uv_value (uv_title uv) (uv_index uv) (uvval rdval')) w3
                    | None \<Rightarrow> w3)))"
    using assms(1) unfolding undervolt_it_def okc_def
    by (auto simp: a b n Let_def split: option.splits if_splits)
  show "ctx_write ctx' = ctx_write ctx" using r by (auto split: if_splits option.splits)
  show "ctx_success ctx' = (ctx_success ctx \<and> ok)"
    using r unfolding e(1) by (auto split: if_splits option.splits)
  show "trace w' = trace w @ es"
    using r d3 tr by (auto simp: print_def okc_def split: if_splits option.splits)
  show "dev w' = d"
    using r d3 e(3) by (auto simp: print_def okc_def split: if_splits option.splits)
  show "take 1 es = [Pwrite (MSR_ADDR_VOLTAGE c)
                        (if ctx_write ctx then uv_wrval uv else uv_rdval uv)]"
    using assms(2) unfolding target_attempt_spec_def Let_def
    by (auto split: if_splits prod.splits bool.splits option.splits)
  show "\<exists>ls. out w' = out w @ ls \<and> uv_reports ls = [(uv_title uv, uv_index uv, ok)]"
    using r o3 unfolding e(1)
    by (auto simp: print_def okc_def split: if_splits option.splits)
qed

lemma foreach_attempt:
  "fold (undervolt_it c) uv (ctx, w) = (ctx', w') \<Longrightarrow>
   targets_attempt_spec c (ctx_write ctx) uv (dev w) = (rs, d) \<Longrightarrow>
     ctx_write ctx' = ctx_write ctx \<and> length rs = length uv \<and>
     ctx_success ctx' = (ctx_success ctx \<and> list_all fst rs) \<and>
     trace w' = trace w @ concat (map snd rs) \<and> dev w' = d \<and>
     map (take 1 \<circ> snd) rs =
       map (\<lambda>u. [Pwrite (MSR_ADDR_VOLTAGE c)
                    (if ctx_write ctx then uv_wrval u else uv_rdval u)]) uv \<and>
     (\<exists>ls. out w' = out w @ ls \<and>
        uv_reports ls = map (\<lambda>(u, ok, es). (uv_title u, uv_index u, ok)) (zip uv rs))"
proof (induction uv arbitrary: ctx w rs d)
  case Nil
  then show ?case by auto
next
  case (Cons u uv)
  obtain ctx1 w1 where s: "undervolt_it c u (ctx, w) = (ctx1, w1)"
    by (cases "undervolt_it c u (ctx, w)")
  obtain ok es d1 where t: "target_attempt_spec c (ctx_write ctx) u (dev w) = (ok, es, d1)"
    by (cases "target_attempt_spec c (ctx_write ctx) u (dev w)")
  obtain rs' d' where t': "targets_attempt_spec c (ctx_write ctx) uv d1 = (rs', d')"
    by (cases "targets_attempt_spec c (ctx_write ctx) uv d1")
  have rs: "rs = (ok, es) # rs'" "d = d'" using Cons.prems(2) by (simp_all add: t t')
  note h = undervolt_it_attempt[OF s t]
  obtain l1 where l1: "out w1 = out w @ l1" "uv_reports l1 = [(uv_title u, uv_index u, ok)]"
    using h(6) by blast
  have f: "fold (undervolt_it c) uv (ctx1, w1) = (ctx', w')" using Cons.prems(1) s by simp
  have t'': "targets_attempt_spec c (ctx_write ctx1) uv (dev w1) = (rs', d')"
    using t' h(1) h(4) by simp
  from Cons.IH[OF f t''] obtain l2 where
    k: "ctx_write ctx' = ctx_write ctx1" "length rs' = length uv"
       "ctx_success ctx' = (ctx_success ctx1 \<and> list_all fst rs')"
       "trace w' = trace w1 @ concat (map snd rs')" "dev w' = d'"
       "map (take 1 \<circ> snd) rs' =
          map (\<lambda>u. [Pwrite (MSR_ADDR_VOLTAGE c)
                    (if ctx_write ctx1 then uv_wrval u else uv_rdval u)]) uv"
       "out w' = out w1 @ l2"
       "uv_reports l2 = map (\<lambda>(u, ok, es). (uv_title u, uv_index u, ok)) (zip uv rs')"
    by blast
  have 1: "ctx_write ctx' = ctx_write ctx" using k(1) h(1) by simp
  have 2: "length rs = length (u # uv)" using k(2) rs(1) by simp
  have 3: "ctx_success ctx' = (ctx_success ctx \<and> list_all fst rs)"
    using k(3) h(2) rs(1) by auto
  have 4: "trace w' = trace w @ concat (map snd rs)" using k(4) h(3) rs(1) by simp
  have 5: "dev w' = d" using k(5) rs(2) by simp
  have 6: "map (take 1 \<circ> snd) rs =
       map (\<lambda>u. [Pwrite (MSR_ADDR_VOLTAGE c)
                    (if ctx_write ctx then uv_wrval u else uv_rdval u)]) (u # uv)"
    using k(6) h(5) h(1) rs(1) by simp
  have 7: "out w' = out w @ (l1 @ l2)" using k(7) l1(1) by simp
  have 8: "uv_reports (l1 @ l2) =
      map (\<lambda>(u, ok, es). (uv_title u, uv_index u, ok)) (zip (u # uv) rs)"
    using k(8) l1(2) rs(1) by (simp add: uv_reports_append)
  show ?case using 1 2 3 4 5 6 7 8 by (intro conjI exI[of _ "l1 @ l2"])
qed

lemma undervolt_it_mismatch:
  assumes "ctx_write ctx"
    and "pwrite c (dev w) (MSR_ADDR_VOLTAGE c) (uv_wrval uv) = (True, d1)"
    and "pwrite c d1 (MSR_ADDR_VOLTAGE c) (uv_rdval uv) = (True, d2)"
    and "pread c d2 (MSR_ADDR_VOLTAGE c) = (Some v, d3)"
    and "v AND 0xffffffff \<noteq> uv_wrval uv AND 0xffffffff"
  shows "\<not> ctx_success (fst (undervolt_it c uv (ctx, w))) \<and>
         last (out (snd (undervolt_it c uv (ctx, w)))) =
           Uv_error (uv_title uv) (uv_index uv) (Literal ''Values do not equal'')"
proof -
  define w1 where "w1 = w\<lparr>dev := d1, trace := trace w @ [Pwrite (MSR_ADDR_VOLTAGE c) (uv_wrval uv)]\<rparr>"
  define w1' where "w1' = w1\<lparr>dev := d2, trace := trace w1 @ [Pwrite (MSR_ADDR_VOLTAGE c) (uv_rdval uv)]\<rparr>"
  define w2 where "w2 = w1'\<lparr>dev := d3, trace := trace w1' @ [Pread (MSR_ADDR_VOLTAGE c)]\<rparr>"
  have a: "wr c (MSR_ADDR_VOLTAGE c) (uv_wrval uv) w = (True, w1)"
    by (simp add: wr_def assms(2) w1_def)
  have b: "wr c (MSR_ADDR_VOLTAGE c) (uv_rdval uv) w1 = (True, w1')"
    by (simp add: wr_def assms(3) w1_def w1'_def)
  have r: "rd c (MSR_ADDR_VOLTAGE c) w1' = (Some v, w2)"
    by (simp add: rd_def assms(4) w1'_def w2_def)
  obtain nll w3 where n: "NEW_LINE (ctx_nll ctx) w2 = (nll, w3)"
    by (cases "NEW_LINE (ctx_nll ctx) w2")
  have "undervolt_it c uv (ctx, w) = (ctx\<lparr>ctx_success := False, ctx_nll := nll\<rparr>,
      print (Uv_error (uv_title uv) (uv_index uv) (Literal ''Values do not equal'')) w3)"
    unfolding undervolt_it_def using assms(1) assms(5) by (simp add: a b r n Let_def)
  then show ?thesis by (simp add: print_def)
qed

lemma foreach_success_False:
  assumes "fold (undervolt_it c) uv (ctx, w) = (ctx', w')" and "\<not> ctx_success ctx"
  shows "\<not> ctx_success ctx'"
  using foreach_effect[OF assms(1)] assms(2) by auto

lemma uvint_0: "uvint 0 = 0"
proof -
  have "fsub (i2f 0x800) (fmul \<bar>0\<bar> f1024) = 2048"
    by (simp add: fsub_def fmul_def i2f_exact fl32_0)
  moreover have "fl32 (2048 + 1 / 2) = of_int 4097 / 2"
    using fl32_half[of 4097] by simp
  ultimately have s: "fadd (fsub (i2f 0x800) (fmul \<bar>0\<bar> f1024)) (1 / 2) = of_int 4097 / 2"
    by (simp only: fadd_def)
  have f: "f2i (of_int 4097 / 2) = 2048" by (simp add: f2i_def)
  show ?thesis unfolding uvint_def s f by simp
qed

lemma power_limit_read_no_method:
  assumes "msr_addr domain = 0" and "mem_addr domain = 0"
  shows "power_limit_read c domain m w =
     (case pread c (dev w) (MSR_ADDR_UNITS c) of
        (r, d) \<Rightarrow> (Inl (case r of None \<Rightarrow> Strerror | Some u \<Rightarrow> Literal ''No method available''),
                   w\<lparr>dev := d, trace := trace w @ [Pread (MSR_ADDR_UNITS c)]\<rparr>))"
  using assms by (simp add: power_limit_read_def rd_def split: prod.splits option.splits)

lemma power_limit_read_memory_only:
  assumes "msr_addr domain = 0" and "mem_addr domain \<noteq> 0"
  shows "power_limit_read c domain m w =
     (case safe_rw_read c (dev w) m of
        (None, d) \<Rightarrow> (Inl (Literal ''Segmentation fault''),
                      w\<lparr>dev := d, trace := trace w @ [Safe_read m]\<rparr>)
      | (Some v, d) \<Rightarrow>
          (case pread c d (MSR_ADDR_UNITS c) of
             (None, d') \<Rightarrow> (Inl Strerror,
                w\<lparr>dev := d', trace := trace w @ [Safe_read m, Pread (MSR_ADDR_UNITS c)]\<rparr>)
           | (Some units, d') \<Rightarrow> (Inr (v, v, units),
                w\<lparr>dev := d', trace := trace w @ [Safe_read m, Pread (MSR_ADDR_UNITS c)]\<rparr>)))"
  using assms
  by (simp add: power_limit_read_def rd_def safe_rw_def split: prod.splits option.splits)

lemma power_limit_write_memory_only:
  assumes "msr_addr domain = 0"
    and "power_limit_write c domain pwr m write lims (nll, w) = (r, nll', w')"
  shows "\<exists>es. trace w' = trace w @ es \<and> list_all (\<lambda>e. \<not> msr_access e) es"
proof (cases "write")
  case True
  obtain msr_limit mem_limit units where l: "lims = (msr_limit, mem_limit, units)"
    by (cases lims)
  define v where "v = power_limit_value msr_limit pwr (power_unit_of units) (time_unit_of units)"
  show ?thesis
    using assms True unfolding power_limit_write_def l
    by (auto simp: safe_rw_def msr_access_def Let_def
        split: if_splits prod.splits option.splits)
next
  case False
  obtain msr_limit mem_limit units where l: "lims = (msr_limit, mem_limit, units)"
    by (cases lims)
  show ?thesis
    using assms False NEW_LINE_dev[of nll w] unfolding power_limit_write_def l
    by (auto simp: print_def split: if_splits prod.splits)
qed

lemma power_limit_report_trace: "trace (power_limit_report domain units r (nll, w)) = trace w"
proof -
  obtain errstr msr_limit mem_limit where r: "r = (errstr, msr_limit, mem_limit)" by (cases r)
  obtain nll' w' where n: "NEW_LINE nll w = (nll', w')" by (cases "NEW_LINE nll w")
  have "trace w' = trace w" using NEW_LINE_dev[OF n] by simp
  then show ?thesis
    by (simp add: power_limit_report_def r n Let_def print_def split: option.splits)
qed

lemma m15: "(0x7fff::u64) = mask 15"
  by (simp add: mask_eq_exp_minus_1)

lemma mk: "(0xffff8000ffff8000::u64) = NOT (push_bit 32 (mask 15) OR mask 15)"
  by (simp add: mask_eq_exp_minus_1)

lemma splice_take_bit:
  fixes s l ml :: u64
  shows "((ml AND 0xffff8000ffff8000) OR push_bit 32 (take_bit 15 s) OR take_bit 15 l) AND 0x7fff
           = take_bit 15 l"
    and "drop_bit 32 ((ml AND 0xffff8000ffff8000) OR push_bit 32 (take_bit 15 s) OR take_bit 15 l)
           AND 0x7fff = take_bit 15 s"
  unfolding m15 mk
  by (auto intro!: bit_word_eqI simp: bit_simps)

lemma splice_fields:
  fixes s l ml :: u64
  assumes "take_bit 15 s = s" and "take_bit 15 l = l"
  shows "((ml AND 0xffff8000ffff8000) OR push_bit 32 s OR l) AND 0x7fff = l"
    and "drop_bit 32 ((ml AND 0xffff8000ffff8000) OR push_bit 32 s OR l) AND 0x7fff = s"
  using splice_take_bit[of ml s l] by (simp_all only: assms)

lemma power_term_range:
  assumes "0 < power_unit"
  shows "take_bit 15 (power_term requested power_unit) = power_term requested power_unit"
proof -
  define k where "k = (if requested < 0 then 0
                      else if requested > 0x7fff div power_unit then 0x7fff div power_unit
                      else requested * power_unit)"
  have d: "0x7fff div power_unit * power_unit \<le> 0x7fff"
    using assms div_mult_mod_eq[of "0x7fff" power_unit] pos_mod_sign[of power_unit "0x7fff"]
    by linarith
  have d2: "0 \<le> 0x7fff div power_unit" "0x7fff div power_unit \<le> 0x7fff"
    using assms d by (simp_all add: pos_imp_zdiv_nonneg_iff div_le_dividend) (smt (verit) mult_le_cancel_left1 mult.commute)
  have "0 \<le> k \<and> k < 2 ^ 15"
  proof (cases "requested < 0 \<or> requested > 0x7fff div power_unit")
    case True
    then show ?thesis using d2 by (auto simp: k_def)
  next
    case False
    then have "requested * power_unit \<le> 0x7fff div power_unit * power_unit"
      using assms by (intro mult_right_mono) auto
    then have "requested * power_unit \<le> 0x7fff" using d by linarith
    moreover have "0 \<le> requested * power_unit" using False assms by simp
    ultimately show ?thesis using False by (simp add: k_def)
  qed
  then have "take_bit 15 k = k" by (simp add: take_bit_int_eq_self)
  then have "take_bit 15 (word_of_int k :: u64) = word_of_int k"
    by (metis take_bit_of_int)
  then show ?thesis by (simp add: power_term_def Let_def k_def)
qed

section \<open>Voltage offset codec\<close>

lemma m11: "(0x800 - 1 :: u64) = mask 11" 
  by (simp add: mask_eq_exp_minus_1)

lemma m32: "(0xffffffff :: u64) = mask 32" 
  by (simp add: mask_eq_exp_minus_1)

lemma uvval_field:
  fixes rd :: u64
  shows "uint ((0x800 - drop_bit 21 rd) AND (0x800 - 1))
         = (- drop_bit 21 (uint (rd AND 0xffffffff))) mod 2048"
proof -
  have "uint ((0x800 - drop_bit 21 rd) AND mask 11) = take_bit 11 (uint (0x800 - drop_bit 21 rd))"
    by (simp add: unsigned_take_bit_eq flip: take_bit_eq_mask)
  also have "\<dots> = take_bit 11 (take_bit 64 (2048 - uint (drop_bit 21 rd)))"
    by (simp add: uint_word_arith_bintrs)
  also have "\<dots> = take_bit 11 (2048 - uint (drop_bit 21 rd))"
    by (simp add: take_bit_take_bit)
  also have "uint (drop_bit 21 rd) = drop_bit 21 (uint rd)"
    by (simp add: unsigned_drop_bit_eq bintr_uint)
  also have "take_bit 11 (2048 - drop_bit 21 (uint rd)) = (2048 - drop_bit 21 (uint rd)) mod 2048"
    by (simp add: take_bit_eq_mod)
  also have "\<dots> = (- drop_bit 21 (uint rd)) mod 2048"
    by (metis add_uminus_conv_diff mod_add_self1)
  also have "\<dots> = (- (drop_bit 21 (uint rd) mod 2048)) mod 2048"
    by (simp add: mod_minus_eq)
  also have "drop_bit 21 (uint rd) mod 2048 = take_bit 11 (drop_bit 21 (uint rd))"
    by (simp add: take_bit_eq_mod)
  also have "\<dots> = drop_bit 21 (take_bit 32 (uint rd))"
    by (simp add: drop_bit_take_bit)
  also have "take_bit 32 (uint rd) = uint (rd AND mask 32)"
    by (simp add: unsigned_take_bit_eq flip: take_bit_eq_mask)
  finally show ?thesis unfolding m11 m32 
    by (simp add: mod_minus_eq)
qed

lemma uvint_field:
  assumes "0 \<le> n" and "n \<le> 2048"
  shows "drop_bit 21 (uint (push_bit 21 (word_of_int n :: u64) AND 0xffffffff)) = n mod 2048"
proof -
  have n64: "take_bit 64 n = n" using assms by (simp add: take_bit_int_eq_self)
  have "uint (push_bit 21 (word_of_int n :: u64) AND mask 32)
          = take_bit 32 (uint (push_bit 21 (word_of_int n :: u64)))"
    by (simp add: unsigned_take_bit_eq flip: take_bit_eq_mask)
  also have "uint (push_bit 21 (word_of_int n :: u64)) = take_bit 64 (push_bit 21 n)"
    by (simp add: unsigned_push_bit_eq uint_word_of_int_eq n64)
  also have "take_bit 32 (take_bit 64 (push_bit 21 n)) = take_bit 32 (push_bit 21 n)"
    by (simp add: take_bit_take_bit)
  finally have "drop_bit 21 (uint (push_bit 21 (word_of_int n :: u64) AND mask 32))
          = drop_bit 21 (take_bit 32 (push_bit 21 n))" by simp
  also have "\<dots> = take_bit 11 (drop_bit 21 (push_bit 21 n))"
    by (simp add: drop_bit_take_bit)
  also have "drop_bit 21 (push_bit 21 n) = n"
    by (simp add: drop_bit_push_bit)
  also have "take_bit 11 n = n mod 2048"
    by (simp add: take_bit_eq_mod)
  finally show ?thesis unfolding m32 .
qed

lemma neg_mod_2048:
  assumes "1 \<le> (n::int)" and "n \<le> 2048"
  shows "(- (n mod 2048)) mod 2048 = 2048 - n"
proof (cases "n = 2048")
  case True
  then show ?thesis by simp
next
  case False
  with assms have "n mod 2048 = n" by simp
  then have "(- (n mod 2048)) mod 2048 = (- n) mod 2048" by (simp only:)
  also have "\<dots> = (2048 - n) mod 2048"
    by (metis add_uminus_conv_diff mod_add_self1)
  also have "\<dots> = 2048 - n" using assms False by (intro mod_pos_pos_trivial) linarith+
  finally show ?thesis .
qed

lemma uv_wrval_low: "uv_wrval uv AND 0xffffffff = uvint (uv_value uv)"
proof -
  have a: "(0x8000001000000000 :: u64) = push_bit 32 0x80000010" by simp
  have b: "(0x100000000 :: u64) = push_bit 32 1" by simp
  have c: "push_bit 40 x = push_bit 32 (push_bit 8 x)" for x :: u64
    by (simp add: push_bit_push_bit)
  have d: "((push_bit 32 x OR push_bit 32 y) OR push_bit 32 z OR (w AND mask 32)) AND mask 32
           = w AND mask 32" for x y z w :: u64
    by (auto intro!: bit_word_eqI simp: bit_simps)
  show ?thesis
    unfolding uv_wrval_def uv_rdval_def uvint_def m32 a b c by (rule d)
qed

lemma uvval_readback:
  assumes "rdval AND 0xffffffff = push_bit 21 (word_of_int n) AND 0xffffffff"
    and "1 \<le> n" and "n \<le> 2048"
  shows "uvval rdval = fdiv (fl32 (of_int (2048 - n))) f1024"
proof -
  have "uint ((0x800 - drop_bit 21 rdval) AND (0x800 - 1)) = 2048 - n"
    using assms by (simp only: uvval_field uvint_field neg_mod_2048)
  then have "unat ((0x800 - drop_bit 21 rdval) AND (0x800 - 1)) = nat (2048 - n)"
    by (simp only: unat_eq_nat_uint)
  moreover have "real (nat (2048 - n)) = of_int (2048 - n)" using assms by simp
  ultimately show ?thesis by (simp only: uvval_def)
qed

lemma fl32_abs_err:
  assumes "\<bar>x\<bar> \<le> b"
  shows "\<bar>fl32 x - x\<bar> \<le> b / 16777216"
proof -
  have "\<bar>fl32 x - x\<bar> \<le> \<bar>x\<bar> / 2 ^ 24" by (rule fl32_rel_err)
  also have "\<dots> \<le> b / 2 ^ 24" using assms by (simp add: divide_right_mono)
  finally show ?thesis by simp
qed

lemma uv_sum:
  assumes "0 \<le> a" and "a \<le> 250"
  shows "\<bar>fadd (fsub (i2f 0x800) (fmul a f1024)) (1 / 2) - (2048 + 1 / 2 - a * f1024)\<bar>
           \<le> 1 / 2000"
    and "0 \<le> a * f1024" and "a * f1024 \<le> 257"
proof -
  have x1: "0 \<le> a * f1024" using assms f1024_bounds by simp
  have "a * f1024 \<le> 250 * (1025 / 1000)"
    using assms f1024_bounds by (intro mult_mono) simp_all
  then have x1': "a * f1024 \<le> 257" by simp
  define p where "p = fl32 (a * f1024)"
  have e1: "\<bar>p - a * f1024\<bar> \<le> 257 / 16777216"
    unfolding p_def using x1 x1' by (intro fl32_abs_err) simp
  define d where "d = fl32 (2048 - p)"
  have "\<bar>2048 - p\<bar> \<le> 2049" using e1 x1 x1' by linarith
  then have e2: "\<bar>d - (2048 - p)\<bar> \<le> 2049 / 16777216"
    unfolding d_def by (rule fl32_abs_err)
  define s where "s = fl32 (d + 1 / 2)"
  have "\<bar>d + 1 / 2\<bar> \<le> 2051" using e1 e2 x1 x1' by linarith
  then have e3: "\<bar>s - (d + 1 / 2)\<bar> \<le> 2051 / 16777216"
    unfolding s_def by (rule fl32_abs_err)
  have "fadd (fsub (i2f 0x800) (fmul a f1024)) (1 / 2) = s"
    by (simp add: fadd_def fsub_def fmul_def i2f_exact s_def d_def p_def)
  moreover have "\<bar>s - (2048 + 1 / 2 - a * f1024)\<bar> \<le> 1 / 2000"
    using e1 e2 e3 by linarith
  ultimately show "\<bar>fadd (fsub (i2f 0x800) (fmul a f1024)) (1 / 2) - (2048 + 1 / 2 - a * f1024)\<bar>
           \<le> 1 / 2000" by simp
  show "0 \<le> a * f1024" by (rule x1)
  show "a * f1024 \<le> 257" by (rule x1')
qed

text \<open>
  C2.  For every offset of magnitude at most 250 mV, the value decoded at line 79 from
  the field encoded at line 56 is within 1/1.024 = 1000/1024 mV of the magnitude; and so
  is the value decoded from any register value read back whose low 32 bits are the
  encoded field.  This is proved with the rounding of every single-precision operation
  of the two lines.
\<close>

theorem voltage_offset_roundtrip:
  assumes "\<bar>v\<bar> \<le> 250"
  shows "\<bar>uvval (uvint v) - \<bar>v\<bar>\<bar> \<le> 1000 / 1024 \<and>
         (\<forall>rdval. rdval AND 0xffffffff = uvint v \<longrightarrow> \<bar>uvval rdval - \<bar>v\<bar>\<bar> \<le> 1000 / 1024)"
proof -
  define a where "a = \<bar>v\<bar>"
  define s where "s = fadd (fsub (i2f 0x800) (fmul a f1024)) (1 / 2)"
  define n where "n = f2i s"
  have a: "0 \<le> a" "a \<le> 250" using assms by (simp_all add: a_def)
  note b = uv_sum[OF a, folded s_def]
  have spos: "0 \<le> s" using b by linarith
  then have n: "n = \<lfloor>s\<rfloor>" by (simp add: n_def f2i_def)
  have "1791 < s" "s < 2049" using b by linarith+
  then have nb: "1 \<le> n" "n \<le> 2048" unfolding n by linarith+
  have ns: "of_int n \<le> s" "s < of_int n + 1" unfolding n by linarith+
  have ui: "uvint v = push_bit 21 (word_of_int n) AND 0xffffffff"
    by (simp add: uvint_def n_def s_def a_def)
  define r :: real where "r = of_int (2048 - n)"
  have "1791 \<le> n" unfolding n using \<open>1791 < s\<close> by (simp add: le_floor_iff)
  then have rb: "0 \<le> r" "r \<le> 257" using nb by (simp_all add: r_def)
  have rs: "\<bar>r - a * f1024\<bar> \<le> 501 / 1000"
    using ns b(1) unfolding r_def of_int_diff of_int_numeral by linarith
  have f1: "1 \<le> f1024" by (rule f1024_bounds)
  have "\<bar>r / f1024 - a\<bar> = \<bar>r - a * f1024\<bar> / f1024"
    using f1 by (simp add: field_simps abs_divide flip: abs_mult)
  also have "\<dots> \<le> \<bar>r - a * f1024\<bar> / 1"
    using f1 by (intro divide_left_mono) simp_all
  finally have q: "\<bar>r / f1024 - a\<bar> \<le> 501 / 1000" using rs by simp
  have "r / f1024 \<le> r / 1" using f1 rb by (intro divide_left_mono) simp_all
  moreover have "0 \<le> r / f1024" using f1 rb by simp
  ultimately have "\<bar>r / f1024\<bar> \<le> 257" using rb by simp
  then have e: "\<bar>fl32 (r / f1024) - r / f1024\<bar> \<le> 257 / 16777216" by (rule fl32_abs_err)
  have main: "\<bar>fl32 (r / f1024) - a\<bar> \<le> 1000 / 1024"
    using q e by linarith
  have rr: "fl32 (of_int (2048 - n)) = r"
    unfolding r_def using nb by (intro fl32_of_int_lt) simp
  have dec: "uvval rdval = fl32 (r / f1024)"
    if "rdval AND 0xffffffff = uvint v" for rdval
    using uvval_readback[OF that[unfolded ui] nb] unfolding rr fdiv_def .
  have self: "uvint v AND 0xffffffff = uvint v" by (simp add: uvint_def)
  show ?thesis using main dec[OF self] dec by (simp add: a_def)
qed

theorem voltage_offset_roundtrip_witness:
  "\<bar>- 50 :: real\<bar> \<le> 250 \<and> \<bar>uvval (uvint (- 50)) - \<bar>- 50\<bar>\<bar> \<le> 1000 / 1024"
  using voltage_offset_roundtrip[of "- 50"] by simp

section \<open>Power-limit clamp\<close>

text \<open>
  Whatever the register held and whatever power unit is positive, the two 15-bit power
  fields of the value built at line 188 hold the encoded requests (the long-term one in
  bits 0 to 14, the short-term one in bits 32 to 46).  The encoding of a request is 0 for
  a request below zero and the request multiplied by \<open>power_unit\<close> for a request in
  range; for a request above \<open>0x7fff / power_unit\<close> it is that quotient, not multiplied.
\<close>

lemma power_term_cases:
  assumes "0 < power_unit"
  shows "power_terms_value msr_limit pwr power_unit AND 0x7fff
           = power_term (long_term pwr) power_unit \<and>
         drop_bit 32 (power_terms_value msr_limit pwr power_unit) AND 0x7fff
           = power_term (short_term pwr) power_unit \<and>
         (\<forall>requested.
            (requested < 0 \<longrightarrow> power_term requested power_unit = 0) \<and>
            (requested > 0x7fff div power_unit \<longrightarrow>
               power_term requested power_unit = word_of_int (0x7fff div power_unit)) \<and>
            (0 \<le> requested \<and> requested \<le> 0x7fff div power_unit \<longrightarrow>
               power_term requested power_unit = word_of_int (requested * power_unit)))"
proof -
  have "0 \<le> 0x7fff div power_unit" using assms by (simp add: pos_imp_zdiv_nonneg_iff)
  then have c: "\<forall>requested.
            (requested < 0 \<longrightarrow> power_term requested power_unit = 0) \<and>
            (requested > 0x7fff div power_unit \<longrightarrow>
               power_term requested power_unit = word_of_int (0x7fff div power_unit)) \<and>
            (0 \<le> requested \<and> requested \<le> 0x7fff div power_unit \<longrightarrow>
               power_term requested power_unit = word_of_int (requested * power_unit))"
    by (auto simp: power_term_def Let_def)
  show ?thesis
    using splice_fields[OF power_term_range[OF assms, of "short_term pwr"]
        power_term_range[OF assms, of "long_term pwr"], of msr_limit] c
    by (simp add: power_terms_value_def Let_def)
qed

text \<open>
  C1.  With the units register 0xA0E03 the power unit is 8 and the maximum request is
  \<open>0x7fff / 8\<close>, 4095 W.  A request of 4095 W is encoded as 32760 raw units, but a
  request of 4096 W, one watt above the maximum, is encoded as 4095 raw units: the
  maximum in watts is stored without the multiplication by the power unit (lines 183 and
  186), so it is not encoded as the maximum.  On a machine that holds the limit register
  0x0042016000dd8160, \<open>power_limit\<close> with 4096 W requested for both limits writes
  0x00420fff00dd8fff and reports both limits as 511 W.
\<close>

theorem power_limit_clamp_above_max:
  "power_unit_of 0xA0E03 = 8 \<and> (0x7fff :: int) div 8 = 4095 \<and>
   power_term 4095 8 = 32760 \<and> power_term 4096 8 = 4095 \<and>
   power_term 4096 8 \<noteq> power_term (0x7fff div 8) 8 \<and>
   power_limit_value 0x0042016000dd8160
     \<lparr>apply_it = True, short_term = 4096, short_time_window = 0, long_term = 4096,
      long_time_window = 0, mem = None\<rparr> (power_unit_of 0xA0E03) (time_unit_of 0xA0E03)
   = 0x00420fff00dd8fff \<and>
   power_limit array_machine
     \<lparr>apply_it = True, short_term = 4096, short_time_window = 0, long_term = 4096,
      long_time_window = 0, mem = None\<rparr>
     \<lparr>name = ''package'', msr_addr = 0x610, mem_addr = 0\<rparr> True
     \<lparr>dev = (\<lambda>a. if a = 0x610 then 0x0042016000dd8160 else 0xA0E03), trace = [], out = [],
      nl = Some False\<rparr>
   = (True,
      \<lparr>dev = (\<lambda>a. if a = 0x610 then 0x0042016000dd8160 else 0xA0E03)
                (0x610 := 0x00420fff00dd8fff),
       trace = [Pread 0x610, Pread 0x606, Pwrite 0x610 0x00420fff00dd8fff],
       out = [Short_term ''package'' 511 (power_to_seconds 0x42 1024) False,
              Long_term ''package'' 511 (power_to_seconds 0x0fff00dd 1024) True],
       nl = Some True\<rparr>)"
proof -
  have t: "power_term 4095 8 = 32760" "power_term 4096 8 = 4095"
    "power_term 4096 8 \<noteq> power_term (0x7fff div 8) 8"
    by (simp_all add: power_term_def)
  have v: "power_limit_value 0x0042016000dd8160
     \<lparr>apply_it = True, short_term = 4096, short_time_window = 0, long_term = 4096,
      long_time_window = 0, mem = None\<rparr> (power_unit_of 0xA0E03) (time_unit_of 0xA0E03)
   = 0x00420fff00dd8fff"
    by (simp add: power_limit_value_def power_terms_value_def power_term_def units_A0E03)
  have v': "power_limit_value 0x0042016000dd8160
     \<lparr>apply_it = True, short_term = 4096, short_time_window = 0, long_term = 4096,
      long_time_window = 0, mem = None\<rparr> 8 1024 = 0x00420fff00dd8fff"
    using v by (simp only: units_A0E03)
  have e: "power_limit array_machine
     \<lparr>apply_it = True, short_term = 4096, short_time_window = 0, long_term = 4096,
      long_time_window = 0, mem = None\<rparr>
     \<lparr>name = ''package'', msr_addr = 0x610, mem_addr = 0\<rparr> True
     \<lparr>dev = (\<lambda>a. if a = 0x610 then 0x0042016000dd8160 else 0xA0E03), trace = [], out = [],
      nl = Some False\<rparr>
   = (True,
      \<lparr>dev = (\<lambda>a. if a = 0x610 then 0x0042016000dd8160 else 0xA0E03)
                (0x610 := 0x00420fff00dd8fff),
       trace = [Pread 0x610, Pread 0x606, Pwrite 0x610 0x00420fff00dd8fff],
       out = [Short_term ''package'' 511 (power_to_seconds 0x42 1024) False,
              Long_term ''package'' 511 (power_to_seconds 0x0fff00dd 1024) True],
       nl = Some True\<rparr>)"
    by (simp add: power_limit_def power_limit_read_def rd_def power_limit_write_def wr_def
        power_limit_report_def NEW_LINE_def print_def array_machine_def v' units_A0E03
        u64_to_int_def Let_def) blast
  show ?thesis using t v e units_A0E03(1) by (intro conjI) simp_all
qed

section \<open>Voltage offsets: verification and iteration\<close>

text \<open>
  C6.  Take a target processed with write requested, after any targets \<open>xs\<close> and
  before any targets \<open>ys\<close>.  If the write of \<open>wrval\<close>, the write of the read request
  and the read all succeed, and the low 32 bits read back differ from the low 32 bits
  of \<open>wrval\<close>, then the target's step clears the success flag and its last printed
  line is the target's title and index with "Values do not equal", and \<open>undervolt\<close>
  on the whole sequence returns false.
\<close>

theorem undervolt_values_do_not_equal:
  assumes "fold (undervolt_it c) xs
             (\<lparr>ctx_write = True, ctx_success = True, ctx_nll = False\<rparr>, w0) = (ctx, w)"
    and "pwrite c (dev w) (MSR_ADDR_VOLTAGE c) (uv_wrval uv) = (True, d1)"
    and "pwrite c d1 (MSR_ADDR_VOLTAGE c) (uv_rdval uv) = (True, d2)"
    and "pread c d2 (MSR_ADDR_VOLTAGE c) = (Some v, d3)"
    and "v AND 0xffffffff \<noteq> uv_wrval uv AND 0xffffffff"
  shows "\<not> ctx_success (fst (undervolt_it c uv (ctx, w))) \<and>
         last (out (snd (undervolt_it c uv (ctx, w)))) =
           Uv_error (uv_title uv) (uv_index uv) (Literal ''Values do not equal'') \<and>
         \<not> fst (undervolt c (xs @ uv # ys) True w0)"
proof -
  have cw: "ctx_write ctx" using foreach_effect[OF assms(1)] by simp
  note m = undervolt_it_mismatch[OF cw assms(2-5)]
  obtain ctx1 w1 where s: "undervolt_it c uv (ctx, w) = (ctx1, w1)"
    by (cases "undervolt_it c uv (ctx, w)")
  obtain ctx2 w2 where t: "fold (undervolt_it c) ys (ctx1, w1) = (ctx2, w2)"
    by (cases "fold (undervolt_it c) ys (ctx1, w1)")
  from m s have "\<not> ctx_success ctx1" by simp
  then have "\<not> ctx_success ctx2" by (rule foreach_success_False[OF t])
  moreover have "undervolt c (xs @ uv # ys) True w0 = (ctx_success ctx2, w2)"
    by (simp add: undervolt_def uv_list_foreach_def assms(1) s t)
  ultimately show ?thesis using m by simp
qed

theorem undervolt_values_do_not_equal_witness:
  "fold (undervolt_it stuck_machine) []
     (\<lparr>ctx_write = True, ctx_success = True, ctx_nll = False\<rparr>,
      \<lparr>dev = (), trace = [], out = [], nl = None\<rparr>)
     = (\<lparr>ctx_write = True, ctx_success = True, ctx_nll = False\<rparr>,
        \<lparr>dev = (), trace = [], out = [], nl = None\<rparr>) \<and>
   (1 :: u64) AND 0xffffffff \<noteq>
     uv_wrval \<lparr>uv_index = 0, uv_title = ''CPU'', uv_value = 0\<rparr> AND 0xffffffff \<and>
   \<not> fst (undervolt stuck_machine [\<lparr>uv_index = 0, uv_title = ''CPU'', uv_value = 0\<rparr>] True
            \<lparr>dev = (), trace = [], out = [], nl = None\<rparr>)"
proof -
  have m: "(1 :: u64) AND 0xffffffff \<noteq>
     uv_wrval \<lparr>uv_index = 0, uv_title = ''CPU'', uv_value = 0\<rparr> AND 0xffffffff"
    by (simp add: uv_wrval_def uv_rdval_def uvint_0)
  show ?thesis
    using m undervolt_values_do_not_equal[of stuck_machine "[]"
        "\<lparr>dev = (), trace = [], out = [], nl = None\<rparr>"
        "\<lparr>ctx_write = True, ctx_success = True, ctx_nll = False\<rparr>"
        "\<lparr>dev = (), trace = [], out = [], nl = None\<rparr>"
        "\<lparr>uv_index = 0, uv_title = ''CPU'', uv_value = 0\<rparr>" "()" "()" 1 "()" "[]"]
    by (simp add: stuck_machine_def)
qed

text \<open>
  C7.  \<open>undervolt\<close> attempts every target of the sequence, in order and whatever the
  outcome of the earlier ones: the accesses it logs are those of the first target, then
  those of the second on the machine the first has left, and so on, one block per target,
  and every block begins with the target's first write to the voltage-control register
  (the write-value when writing, the read-request otherwise).  It returns true exactly
  when the outcome of every target is a success, the outcome being what the spec requires
  of the target's own accesses.  It keeps what was printed before and prints one report
  per target, in order, with the target's title, index and outcome.
\<close>

theorem undervolt_all_targets:
  "case targets_attempt_spec c write uv (dev w) of
     (rs, d) \<Rightarrow>
       let r = undervolt c uv write w in
         length rs = length uv \<and>
         map (take 1 \<circ> snd) rs =
           map (\<lambda>u. [Pwrite (MSR_ADDR_VOLTAGE c) (if write then uv_wrval u else uv_rdval u)]) uv \<and>
         trace (snd r) = trace w @ concat (map snd rs) \<and>
         dev (snd r) = d \<and>
         fst r = list_all fst rs \<and>
         take (length (out w)) (out (snd r)) = out w \<and>
         uv_reports (drop (length (out w)) (out (snd r))) =
           map (\<lambda>(u, ok, es). (uv_title u, uv_index u, ok)) (zip uv rs)"
proof (cases "uv = []")
  case True
  then show ?thesis by (simp add: undervolt_def)
next
  case False
  obtain rs d where t: "targets_attempt_spec c write uv (dev w) = (rs, d)"
    by (cases "targets_attempt_spec c write uv (dev w)")
  obtain ctx' w' where f: "fold (undervolt_it c) uv
      (\<lparr>ctx_write = write, ctx_success = True, ctx_nll = False\<rparr>, w) = (ctx', w')"
    by (cases "fold (undervolt_it c) uv
      (\<lparr>ctx_write = write, ctx_success = True, ctx_nll = False\<rparr>, w)")
  have t0: "targets_attempt_spec c
      (ctx_write \<lparr>ctx_write = write, ctx_success = True, ctx_nll = False\<rparr>) uv (dev w) = (rs, d)"
    using t by simp
  from foreach_attempt[OF f t0] obtain ls where
    h: "length rs = length uv" "ctx_success ctx' = list_all fst rs"
       "trace w' = trace w @ concat (map snd rs)" "dev w' = d"
       "map (take 1 \<circ> snd) rs =
          map (\<lambda>u. [Pwrite (MSR_ADDR_VOLTAGE c) (if write then uv_wrval u else uv_rdval u)]) uv"
       "out w' = out w @ ls"
       "uv_reports ls = map (\<lambda>(u, ok, es). (uv_title u, uv_index u, ok)) (zip uv rs)"
    by auto
  have u: "undervolt c uv write w = (ctx_success ctx', w')"
    using False f by (simp add: undervolt_def uv_list_foreach_def)
  show ?thesis unfolding t u using h by (simp add: Let_def)
qed

text \<open>On a machine where every access fails, three targets make three attempts.\<close>

theorem undervolt_all_targets_witness:
  "undervolt dead_machine
     [\<lparr>uv_index = 0, uv_title = ''CPU'', uv_value = 0\<rparr>,
      \<lparr>uv_index = 1, uv_title = ''GPU'', uv_value = 0\<rparr>,
      \<lparr>uv_index = 2, uv_title = ''CPU Cache'', uv_value = 0\<rparr>] True
     \<lparr>dev = (), trace = [], out = [], nl = None\<rparr>
   = (False,
      \<lparr>dev = (),
       trace = [Pwrite 0x150 0x8000001100000000, Pwrite 0x150 0x8000011100000000,
                Pwrite 0x150 0x8000021100000000],
       out = [Uv_error ''CPU'' 0 Strerror, Uv_error ''GPU'' 1 Strerror,
              Uv_error ''CPU Cache'' 2 Strerror],
       nl = None\<rparr>)"
proof -
  let ?uv = "[\<lparr>uv_index = 0, uv_title = ''CPU'', uv_value = 0\<rparr>,
      \<lparr>uv_index = 1, uv_title = ''GPU'', uv_value = 0\<rparr>,
      \<lparr>uv_index = 2, uv_title = ''CPU Cache'', uv_value = 0\<rparr>]"
  let ?w = "\<lparr>dev = (), trace = [], out = [], nl = None :: bool option\<rparr>"
  have a: "fst (undervolt dead_machine ?uv True ?w) = False \<and>
           trace (snd (undervolt dead_machine ?uv True ?w)) =
             [Pwrite 0x150 0x8000001100000000, Pwrite 0x150 0x8000011100000000,
              Pwrite 0x150 0x8000021100000000]"
    using undervolt_all_targets[where c = dead_machine and uv = ?uv and w = ?w, of True]
    by (simp add: target_attempt_spec_def dead_machine_def uv_wrval_def uv_rdval_def uvint_0
        Let_def)
  have b: "out (snd (undervolt dead_machine ?uv True ?w)) =
      [Uv_error ''CPU'' 0 Strerror, Uv_error ''GPU'' 1 Strerror,
       Uv_error ''CPU Cache'' 2 Strerror] \<and>
      nl (snd (undervolt dead_machine ?uv True ?w)) = None"
    by (simp add: undervolt_def uv_list_foreach_def undervolt_it_def wr_def rd_def
        NEW_LINE_def print_def dead_machine_def Let_def)
  obtain r w' where e: "undervolt dead_machine ?uv True ?w = (r, w')"
    by (cases "undervolt dead_machine ?uv True ?w")
  show ?thesis using a b unfolding e by (cases w') simp
qed

section \<open>Time windows: the search\<close>

lemma log2_ge_eighths:
  assumes "0 \<le> c" and "c \<le> x" and "1 / 2 ^ k \<le> c ^ 8" 
  shows "- real k / 8 \<le> log 2 x"
proof -
  have "(0::real) < 1 / 2 ^ k" by simp
  then have c8: "0 < c ^ 8" using assms(3) by linarith
  then have cpos: "0 < c" using assms(1) by (cases "c = 0") auto
  then have xpos: "0 < x" using assms(2) by linarith
  have "c ^ 8 \<le> x ^ 8" using assms(2,1) by (rule power_mono)
  then have "1 / 2 ^ k \<le> x ^ 8" using assms(3) by linarith
  then have "log 2 (1 / 2 ^ k) \<le> log 2 (x ^ 8)"
    using xpos by (subst log_le_cancel_iff) simp_all
  moreover have "log 2 (1 / 2 ^ k) = - real k"
    by (simp add: log_divide log_nat_power)
  moreover have "log 2 (x ^ 8) = 8 * log 2 x"
    using xpos by (simp add: log_nat_power)
  ultimately show ?thesis by simp
qed

lemma log2_le_eighths:
  assumes "0 < x" and "x \<le> c" and "c ^ 8 \<le> 1 / 2 ^ k" 
  shows "log 2 x \<le> - real k / 8"
proof -
  have "x ^ 8 \<le> c ^ 8" using assms(1,2) by (intro power_mono) simp_all
  then have "x ^ 8 \<le> 1 / 2 ^ k" using assms(3) by linarith
  then have "log 2 (x ^ 8) \<le> log 2 (1 / 2 ^ k)"
    using assms(1) by (subst log_le_cancel_iff) simp_all
  moreover have "log 2 (1 / 2 ^ k) = - real k"
    by (simp add: log_divide log_nat_power)
  moreover have "log 2 (x ^ 8) = 8 * log 2 x"
    using assms(1) by (simp add: log_nat_power)
  ultimately show ?thesis by simp
qed

lemma fl32_near:
  assumes "0 < x" shows "x * (99 / 100) \<le> fl32 x" and "fl32 x \<le> x * (101 / 100)"
proof -
  have "\<bar>fl32 x - x\<bar> \<le> \<bar>x\<bar> / 2 ^ 24" by (rule fl32_rel_err)
  moreover have "\<bar>x\<bar> / 2 ^ 24 \<le> x / 100" using assms by simp
  ultimately have "\<bar>fl32 x - x\<bar> \<le> x / 100" by linarith
  then show "x * (99 / 100) \<le> fl32 x" and "fl32 x \<le> x * (101 / 100)" by linarith+
qed

text \<open>The logarithms of the three quotients 1/1.25, 1/1.5 and 1/1.75, as computed.\<close>

lemma log2_fifth: "of_int (- 3) / 8 \<le> log 2 (fl32 (4 / 5))" "log 2 (fl32 (4 / 5)) \<le> of_int (- 1) / 8"
proof -
  have b: "4 / 5 * (99 / 100) \<le> fl32 (4 / 5)" "fl32 (4 / 5) \<le> 4 / 5 * (101 / 100)"
    by (rule fl32_near, simp)+
  have pos: "0 < fl32 (4 / 5)" by (rule fl32_pos) simp
  have "- real 3 / 8 \<le> log 2 (fl32 (4 / 5))"
    by (rule log2_ge_eighths[OF _ b(1)]) (simp_all add: power_divide)
  then show "of_int (- 3) / 8 \<le> log 2 (fl32 (4 / 5))" by simp
  have "log 2 (fl32 (4 / 5)) \<le> - real 1 / 8"
    by (rule log2_le_eighths[OF pos b(2)]) (simp add: power_divide)
  then show "log 2 (fl32 (4 / 5)) \<le> of_int (- 1) / 8" by simp
qed

lemma log2_third: "of_int (- 5) / 8 \<le> log 2 (fl32 (2 / 3))" "log 2 (fl32 (2 / 3)) \<le> of_int (- 4) / 8"
proof -
  have b: "2 / 3 * (99 / 100) \<le> fl32 (2 / 3)" "fl32 (2 / 3) \<le> 2 / 3 * (101 / 100)"
    by (rule fl32_near, simp)+
  have pos: "0 < fl32 (2 / 3)" by (rule fl32_pos) simp
  have "- real 5 / 8 \<le> log 2 (fl32 (2 / 3))"
    by (rule log2_ge_eighths[OF _ b(1)]) (simp_all add: power_divide)
  then show "of_int (- 5) / 8 \<le> log 2 (fl32 (2 / 3))" by simp
  have "log 2 (fl32 (2 / 3)) \<le> - real 4 / 8"
    by (rule log2_le_eighths[OF pos b(2)]) (simp add: power_divide)
  then show "log 2 (fl32 (2 / 3)) \<le> of_int (- 4) / 8" by simp
qed

lemma log2_seventh: "of_int (- 7) / 8 \<le> log 2 (fl32 (4 / 7))" "log 2 (fl32 (4 / 7)) \<le> of_int (- 6) / 8"
proof -
  have b: "4 / 7 * (99 / 100) \<le> fl32 (4 / 7)" "fl32 (4 / 7) \<le> 4 / 7 * (101 / 100)"
    by (rule fl32_near, simp)+
  have pos: "0 < fl32 (4 / 7)" by (rule fl32_pos) simp
  have "- real 7 / 8 \<le> log 2 (fl32 (4 / 7))"
    by (rule log2_ge_eighths[OF _ b(1)]) (simp_all add: power_divide)
  then show "of_int (- 7) / 8 \<le> log 2 (fl32 (4 / 7))" by simp
  have "log 2 (fl32 (4 / 7)) \<le> - real 6 / 8"
    by (rule log2_le_eighths[OF pos b(2)]) (simp add: power_divide)
  then show "log 2 (fl32 (4 / 7)) \<le> of_int (- 6) / 8" by simp
qed

lemma log2f_shift:
  assumes "0 < v"
    and "of_int a / 8 \<le> log 2 v" and "log 2 v \<le> of_int b / 8"
    and "\<bar>a + 8 * j\<bar> < 2 ^ 24" and "\<bar>b + 8 * j\<bar> < 2 ^ 24"
  shows "of_int (a + 8 * j) / 8 \<le> log2f (v * 2 powr of_int j)"
    and "log2f (v * 2 powr of_int j) \<le> of_int (b + 8 * j) / 8"
proof -
  have l: "log 2 (v * 2 powr of_int j) = log 2 v + of_int j"
    using assms(1) by (simp add: log_mult)
  have "of_int (a + 8 * j) / 8 \<le> log 2 (v * 2 powr of_int j)"
    unfolding l using assms(2) by simp
  then have "fl32 (of_int (a + 8 * j) / 8) \<le> fl32 (log 2 (v * 2 powr of_int j))"
    by (rule fl32_mono)
  then show "of_int (a + 8 * j) / 8 \<le> log2f (v * 2 powr of_int j)"
    unfolding log2f_def fl32_eighth[OF assms(4)] .
  have "log 2 (v * 2 powr of_int j) \<le> of_int (b + 8 * j) / 8"
    unfolding l using assms(3) by simp
  then have "fl32 (log 2 (v * 2 powr of_int j)) \<le> fl32 (of_int (b + 8 * j) / 8)"
    by (rule fl32_mono)
  then show "log2f (v * 2 powr of_int j) \<le> of_int (b + 8 * j) / 8"
    unfolding log2f_def fl32_eighth[OF assms(5)] .
qed

text \<open>A round of the loop whose logarithm is at most 0: the conversion to \<open>int\<close>
  rounds it up, and the difference is at most 0.\<close>

lemma step_nonpositive:
  assumes "0 \<le> i" and "i \<le> 3"
    and "log2f (fdiv (fmul seconds (i2f time_unit)) (of_int (4 + i) / 4)) = e"
    and "of_int k - 1 < e" and "e \<le> of_int k" and "k \<le> 0" and "- (2 ^ 24) < k"
  shows "power_from_seconds_step seconds time_unit i (ld, lr) =
     (if fl32 (e - of_int k) < ld
      then (fl32 (e - of_int k), push_bit 6 i OR push_bit 1 k) else (ld, lr))"
proof -
  have m: "fadd (i2f 1) (fdiv (i2f i) 4) = of_int (4 + i) / 4"
    using assms(1,2) by (rule multiplier_exact)
  have "e \<le> 0" using assms(5,6) by linarith
  have c: "\<lceil>e\<rceil> = k" using assms(4,5) by (intro ceiling_unique) simp_all
  have fi: "f2i e = k"
  proof (cases "e = 0")
    case True
    then show ?thesis using c by (simp add: f2i_def)
  next
    case False
    then show ?thesis using c \<open>e \<le> 0\<close> by (simp add: f2i_def)
  qed
  have ik: "i2f k = of_int k" using assms(6,7) by (intro i2f_exact) simp
  have "fl32 (e - of_int k) \<le> fl32 0" using assms(5) by (intro fl32_mono) simp
  then have d: "\<not> fsub e (i2f k) > 1 / 2" by (simp add: fsub_def ik fl32_0)
  have k32: "k < 0x20" using assms(6) by simp
  have d': "fsub e (i2f k) = fl32 (e - of_int k)" by (simp add: fsub_def ik)
  show ?thesis
    unfolding power_from_seconds_step_def Let_def m assms(3) fi
    using d k32 by (simp add: d')
qed

lemma diff_bounds:
  assumes "of_int a / 8 \<le> e" and "e \<le> of_int b / 8"
    and "\<bar>a - 8 * k\<bar> < 2 ^ 24" and "\<bar>b - 8 * k\<bar> < 2 ^ 24"
  shows "of_int (a - 8 * k) / 8 \<le> fl32 (e - of_int k)"
    and "fl32 (e - of_int k) \<le> of_int (b - 8 * k) / 8"
proof -
  have "of_int (a - 8 * k) / 8 \<le> e - of_int k" using assms(1) by simp
  then have "fl32 (of_int (a - 8 * k) / 8) \<le> fl32 (e - of_int k)" by (rule fl32_mono)
  then show "of_int (a - 8 * k) / 8 \<le> fl32 (e - of_int k)"
    unfolding fl32_eighth[OF assms(3)] .
  have "e - of_int k \<le> of_int (b - 8 * k) / 8" using assms(2) by simp
  then have "fl32 (e - of_int k) \<le> fl32 (of_int (b - 8 * k) / 8)" by (rule fl32_mono)
  then show "fl32 (e - of_int k) \<le> of_int (b - 8 * k) / 8"
    unfolding fl32_eighth[OF assms(4)] .
qed

lemma step_keeps_result:
  assumes "0 \<le> i" and "i \<le> 3"
    and "log2f (fdiv (fmul seconds (i2f time_unit)) (of_int (4 + i) / 4)) = e"
    and "of_int k - 1 < e" and "e \<le> of_int k" and "k \<le> 0" and "- (2 ^ 24) < k"
    and "push_bit 6 i OR push_bit 1 k = r"
  shows "\<exists>d. power_from_seconds_step seconds time_unit i (ld, r) = (d, r)"
  unfolding step_nonpositive[OF assms(1-7)] assms(8) by simp

lemma field_range:
  fixes i e :: int
  assumes "0 \<le> i" and "i \<le> 3" and "0 \<le> e" and "e < 0x20"
  shows "0 \<le> push_bit 6 i OR push_bit 1 e" and "push_bit 6 i OR push_bit 1 e < 2 ^ 8"
    and "even (push_bit 6 i OR push_bit 1 e)"
proof -
  have a: "0 \<le> push_bit 6 i" "0 \<le> push_bit 1 e" using assms by simp_all
  show "0 \<le> push_bit 6 i OR push_bit 1 e" using a by simp
  have "push_bit 6 i < 2 ^ 8" "push_bit 1 e < 2 ^ 8" using assms by (simp_all add: push_bit_eq_mult)
  then show "push_bit 6 i OR push_bit 1 e < 2 ^ 8" using a(1) by (intro OR_upper)
  show "even (push_bit 6 i OR push_bit 1 e)" by (simp add: even_or_iff)
qed

lemma step_time_field:
  assumes "0 \<le> i" and "i \<le> 3" and "time_field lr"
    and "1 \<le> fdiv (fmul seconds (i2f time_unit)) (of_int (4 + i) / 4)"
  shows "time_field (snd (power_from_seconds_step seconds time_unit i (ld, lr)))"
proof -
  define e where "e = log2f (fdiv (fmul seconds (i2f time_unit)) (of_int (4 + i) / 4))"
  have m: "fadd (i2f 1) (fdiv (i2f i) 4) = of_int (4 + i) / 4"
    using assms(1,2) by (rule multiplier_exact)
  have "log 2 1 \<le> log 2 (fdiv (fmul seconds (i2f time_unit)) (of_int (4 + i) / 4))"
    using assms(4) by (subst log_le_cancel_iff) simp_all
  then have "fl32 0 \<le> e" unfolding e_def log2f_def by (intro fl32_mono) simp
  then have e0: "0 \<le> e" by (simp add: fl32_0)
  then have k0: "0 \<le> f2i e" by (simp add: f2i_def)
  have r: "time_field (push_bit 6 i OR push_bit 1 k)" if "0 \<le> k" "k < 0x20" for k
    using field_range[OF assms(1,2) that] by (simp add: time_field_def)
  show ?thesis
    unfolding power_from_seconds_step_def Let_def m e_def[symmetric]
    using k0 assms(3) r[of "f2i e"] r[of "f2i e + 1"] by (auto split: if_splits)
qed

lemma power_from_seconds_time_field:
  assumes "0 < time_unit" and "time_unit < 2 ^ 24" and "7 / 4 \<le> seconds * of_int time_unit"
  shows "time_field (power_from_seconds seconds time_unit)"
proof -
  have u: "i2f time_unit = of_int time_unit" using assms(1,2) by (intro i2f_exact) simp
  have "fl32 (of_int 7 / 4) \<le> fl32 (seconds * of_int time_unit)"
    using assms(3) by (intro fl32_mono) simp
  moreover have "fl32 (of_int 7 / 4) = of_int 7 / 4" by (rule fl32_quarter) simp
  ultimately have P: "7 / 4 \<le> fmul seconds (i2f time_unit)" by (simp add: fmul_def u)
  have v: "1 \<le> fdiv (fmul seconds (i2f time_unit)) (of_int (4 + i) / 4)"
    if "0 \<le> i" "i \<le> 3" for i
  proof -
    have "(of_int (4 + i) / 4 :: real) \<le> 7 / 4" using that by simp
    then have "of_int (4 + i) / 4 \<le> fmul seconds (i2f time_unit)" using P by linarith
    moreover have "(0::real) < of_int (4 + i) / 4" using that by simp
    ultimately have "1 \<le> fmul seconds (i2f time_unit) / (of_int (4 + i) / 4)"
      by (simp add: pos_le_divide_eq)
    then have "fl32 1 \<le> fl32 (fmul seconds (i2f time_unit) / (of_int (4 + i) / 4))"
      by (rule fl32_mono)
    then show ?thesis by (simp add: fdiv_def)
  qed
  have t0: "time_field 0" by (simp add: time_field_def)
  have tfe: "time_field 0xfe" by (simp add: time_field_def)
  obtain d0 r0 where s0: "power_from_seconds_step seconds time_unit 0 (1, 0) = (d0, r0)"
    by (cases "power_from_seconds_step seconds time_unit 0 (1, 0)")
  obtain d1 r1 where s1: "power_from_seconds_step seconds time_unit 1 (d0, r0) = (d1, r1)"
    by (cases "power_from_seconds_step seconds time_unit 1 (d0, r0)")
  obtain d2 r2 where s2: "power_from_seconds_step seconds time_unit 2 (d1, r1) = (d2, r2)"
    by (cases "power_from_seconds_step seconds time_unit 2 (d1, r1)")
  obtain d3 r3 where s3: "power_from_seconds_step seconds time_unit 3 (d2, r2) = (d3, r3)"
    by (cases "power_from_seconds_step seconds time_unit 3 (d2, r2)")
  have "time_field r0" using step_time_field[OF _ _ t0 v, of 0 1] by (simp add: s0)
  then have "time_field r1" using step_time_field[OF _ _ _ v, of 1 r0 d0] by (simp add: s1)
  then have "time_field r2" using step_time_field[OF _ _ _ v, of 2 r1 d1] by (simp add: s2)
  then have "time_field r3" using step_time_field[OF _ _ _ v, of 3 r2 d2] by (simp add: s3)
  then show ?thesis
    unfolding power_from_seconds_def using tfe by (simp add: s0 s1 s2 s3)
qed

text \<open>
  C3.  With the time unit 1024 and a window of exactly one unit, 1/1024 s, which is the
  field 0 (multiplier 1, exponent 0), \<open>power_from_seconds\<close> returns the field 0xc0
  (multiplier 1.75, exponent 0), which \<open>power_to_seconds\<close> decodes to 1.75/1024 s: the
  three quotients below 1 have a negative logarithm, their conversion to \<open>int\<close> is 0,
  and the negative difference wins the comparison \<open>diff < last_diff\<close>.
\<close>

theorem power_from_seconds_one_tick:
  "power_from_seconds (1 / 1024) 1024 = 0xc0 \<and>
   power_to_seconds 0xc0 1024 = 7 / 4096 \<and>
   power_to_seconds 0 1024 = 1 / 1024"
proof -
  have u: "i2f 1024 = 1024" using i2f_exact[of 1024] by simp
  have P: "fmul (1 / 1024) (i2f 1024) = 1" by (simp add: fmul_def u)
  have p5: "0 < fl32 (4 / 5)" by (rule fl32_pos) simp
  have p3: "0 < fl32 (2 / 3)" by (rule fl32_pos) simp
  have p7: "0 < fl32 (4 / 7)" by (rule fl32_pos) simp
  define e1 where "e1 = log2f (fl32 (4 / 5))"
  define e2 where "e2 = log2f (fl32 (2 / 3))"
  define e3 where "e3 = log2f (fl32 (4 / 7))"
  have b1: "of_int (- 3) / 8 \<le> e1" "e1 \<le> of_int (- 1) / 8"
    using log2f_shift[OF p5 log2_fifth, of 0] by (simp_all add: e1_def)
  have b2: "of_int (- 5) / 8 \<le> e2" "e2 \<le> of_int (- 4) / 8"
    using log2f_shift[OF p3 log2_third, of 0] by (simp_all add: e2_def)
  have b3: "of_int (- 7) / 8 \<le> e3" "e3 \<le> of_int (- 6) / 8"
    using log2f_shift[OF p7 log2_seventh, of 0] by (simp_all add: e3_def)
  have d1: "of_int (- 3) / 8 \<le> fl32 e1" "fl32 e1 \<le> of_int (- 1) / 8"
    using diff_bounds[OF b1, of 0] by simp_all
  have d2: "of_int (- 5) / 8 \<le> fl32 e2" "fl32 e2 \<le> of_int (- 4) / 8"
    using diff_bounds[OF b2, of 0] by simp_all
  have d3: "of_int (- 7) / 8 \<le> fl32 e3" "fl32 e3 \<le> of_int (- 6) / 8"
    using diff_bounds[OF b3, of 0] by simp_all
  have l0: "log2f (fdiv (fmul (1 / 1024) (i2f 1024)) (of_int (4 + 0) / 4)) = 0"
    unfolding P by (simp add: fdiv_def log2f_def fl32_0)
  have l1: "log2f (fdiv (fmul (1 / 1024) (i2f 1024)) (of_int (4 + 1) / 4)) = e1"
    unfolding P by (simp add: fdiv_def e1_def)
  have l2: "log2f (fdiv (fmul (1 / 1024) (i2f 1024)) (of_int (4 + 2) / 4)) = e2"
    unfolding P by (simp add: fdiv_def e2_def)
  have l3: "log2f (fdiv (fmul (1 / 1024) (i2f 1024)) (of_int (4 + 3) / 4)) = e3"
    unfolding P by (simp add: fdiv_def e3_def)
  have s0: "power_from_seconds_step (1 / 1024) 1024 0 (1, 0) = (0, 0)"
    using step_nonpositive[OF _ _ l0, of 0 1 0] by (simp add: fl32_0)
  have s1: "power_from_seconds_step (1 / 1024) 1024 1 (0, 0) = (fl32 e1, 0x40)"
    using step_nonpositive[OF _ _ l1, of 0 0 0] b1 d1 by simp
  have s2: "power_from_seconds_step (1 / 1024) 1024 2 (fl32 e1, 0x40)
      = (fl32 e2, 0x80)"
    using step_nonpositive[OF _ _ l2, of 0 "fl32 e1" "0x40"] b2 d1 d2 by simp
  have s3: "power_from_seconds_step (1 / 1024) 1024 3 (fl32 e2, 0x80)
      = (fl32 e3, 0xc0)"
    using step_nonpositive[OF _ _ l3, of 0 "fl32 e2" "0x80"] b3 d2 d3 by simp
  have "log2f (fdiv (fmul (1 / 1024) (i2f 1024)) (175 / 100)) = e3"
    unfolding P by (simp add: fdiv_def e3_def)
  then have sat: "\<not> 0x1f \<le> log2f (fdiv (fmul (1 / 1024) (i2f 1024)) (175 / 100))"
    using b3 by simp
  have a: "power_from_seconds (1 / 1024) 1024 = 0xc0"
    unfolding power_from_seconds_def using sat by (simp add: s0 s1 s2 s3)
  have m3: "fadd (i2f 1) (fdiv (i2f 3) 4) = of_int (4 + 3) / 4" by (rule multiplier_exact) simp_all
  have m0: "fadd (i2f 1) (fdiv (i2f 0) 4) = of_int (4 + 0) / 4" by (rule multiplier_exact) simp_all
  have x0: "exp2f (i2f 0) = 1" by (simp add: exp2f_def i2f_exact)
  have q7: "fl32 (of_int 7 / 4) = of_int 7 / 4" by (rule fl32_quarter) simp
  have t7: "fl32 (of_int 7 / 4096) = of_int 7 / 4096" by (rule fl32_4096) simp
  have t1: "fl32 (of_int 4 / 4096) = of_int 4 / 4096" by (rule fl32_4096) simp
  have g: "drop_bit 6 (0xc0 :: int) AND 0x3 = 3" "drop_bit 1 (0xc0 :: int) AND 0x1f = 0"
    "drop_bit 6 (0 :: int) AND 0x3 = 0" "drop_bit 1 (0 :: int) AND 0x1f = 0"
    by simp_all
  have "power_to_seconds 0xc0 1024 = fl32 (fl32 (1 * (of_int (4 + 3) / 4)) / 1024)"
    unfolding power_to_seconds_def Let_def g unfolding m3 x0 u unfolding fmul_def fdiv_def ..
  also have "1 * (real_of_int (4 + 3) / 4) = of_int 7 / 4" by simp
  also have "fl32 (of_int 7 / 4) / 1024 = of_int 7 / 4096" unfolding q7 by simp
  also have "fl32 (of_int 7 / 4096) = 7 / 4096" unfolding t7 by simp
  finally have b: "power_to_seconds 0xc0 1024 = 7 / 4096" .
  have "power_to_seconds 0 1024 = fl32 (fl32 (1 * (of_int (4 + 0) / 4)) / 1024)"
    unfolding power_to_seconds_def Let_def g unfolding m0 x0 u unfolding fmul_def fdiv_def ..
  also have "1 * (real_of_int (4 + 0) / 4) = 1" by simp
  also have "fl32 1 / 1024 = of_int 4 / 4096" by simp
  also have "fl32 (of_int 4 / 4096) = 1 / 1024" unfolding t1 by simp
  finally have c: "power_to_seconds 0 1024 = 1 / 1024" .
  show ?thesis using a b c by simp
qed

text \<open>
  C4.  \<open>power_from_seconds\<close> returns 0xfe whenever the test of line 106 holds as
  computed; and it holds as computed whenever, for positive seconds and a positive time
  unit below \<open>2^24\<close>, the exact logarithm \<open>log2(seconds * time_unit / 1.75)\<close> is at
  least 31.
\<close>

theorem power_from_seconds_saturates:
  "(0x1f \<le> log2f (fdiv (fmul seconds (i2f time_unit)) (175 / 100)) \<longrightarrow>
      power_from_seconds seconds time_unit = 0xfe) \<and>
   (0 < seconds \<and> 0 < time_unit \<and> time_unit < 2 ^ 24 \<and>
    31 \<le> log 2 (seconds * of_int time_unit / (175 / 100)) \<longrightarrow>
      power_from_seconds seconds time_unit = 0xfe)"
proof (intro conjI impI)
  assume "0x1f \<le> log2f (fdiv (fmul seconds (i2f time_unit)) (175 / 100))"
  then show "power_from_seconds seconds time_unit = 0xfe"
    by (simp add: power_from_seconds_def)
next
  assume h: "0 < seconds \<and> 0 < time_unit \<and> time_unit < 2 ^ 24 \<and>
    31 \<le> log 2 (seconds * of_int time_unit / (175 / 100))"
  then have u: "i2f time_unit = of_int time_unit" by (intro i2f_exact) simp
  have pos: "0 < seconds * of_int time_unit / (175 / 100)" using h by simp
  have "(2::real) powr 31 \<le> 2 powr log 2 (seconds * of_int time_unit / (175 / 100))"
    using h by (intro powr_mono) simp_all
  then have "2 ^ 31 \<le> seconds * of_int time_unit / (175 / 100)" using pos by simp
  then have "of_int 7 * 2 ^ 29 \<le> seconds * of_int time_unit" by simp
  then have "fl32 (of_int 7 * 2 ^ 29) \<le> fl32 (seconds * of_int time_unit)" by (rule fl32_mono)
  moreover have "fl32 (of_int 7 * 2 ^ 29) = of_int 7 * 2 ^ 29" by (rule fl32_int_pow2) simp
  ultimately have a: "of_int 7 * 2 ^ 29 \<le> fl32 (seconds * of_int time_unit)"
    by (simp only:)
  then have "2 ^ 31 \<le> fl32 (seconds * of_int time_unit) / (175 / 100)" by simp
  then have "fl32 (2 ^ 31) \<le> fl32 (fl32 (seconds * of_int time_unit) / (175 / 100))"
    by (rule fl32_mono)
  then have b: "2 ^ 31 \<le> fdiv (fmul seconds (i2f time_unit)) (175 / 100)"
    by (simp only: fl32_pow2 fdiv_def fmul_def u)
  have "(0::real) < 2 ^ 31" by simp
  then have "0 < fdiv (fmul seconds (i2f time_unit)) (175 / 100)" using b by linarith
  then have "log 2 (2 ^ 31) \<le> log 2 (fdiv (fmul seconds (i2f time_unit)) (175 / 100))"
    using b by (subst log_le_cancel_iff) simp_all
  moreover have "log 2 ((2::real) ^ 31) = real 31 * log 2 2" by (rule log_nat_power) simp
  ultimately have "31 \<le> log 2 (fdiv (fmul seconds (i2f time_unit)) (175 / 100))"
    by simp
  then have "fl32 31 \<le> fl32 (log 2 (fdiv (fmul seconds (i2f time_unit)) (175 / 100)))"
    by (rule fl32_mono)
  then have "0x1f \<le> log2f (fdiv (fmul seconds (i2f time_unit)) (175 / 100))"
    by (simp add: log2f_def)
  then show "power_from_seconds seconds time_unit = 0xfe"
    by (simp add: power_from_seconds_def)
qed

theorem power_from_seconds_saturates_witness:
  "(0::real) < 4294967296 \<and> (0::int) < 1 \<and> (1::int) < 2 ^ 24 \<and>
   31 \<le> log 2 (4294967296 * of_int 1 / (175 / 100)) \<and>
   power_from_seconds 4294967296 1 = 0xfe"
proof -
  have "(2::real) powr 31 \<le> 4294967296 * of_int 1 / (175 / 100)" by simp
  then have h: "31 \<le> log 2 (4294967296 * of_int 1 / (175 / 100))"
    by (subst le_log_iff) simp_all
  show ?thesis using h power_from_seconds_saturates[of 4294967296 1] by simp
qed

section \<open>Time windows: requests of at least 1.75 time units\<close>

text \<open>
  Below the saturation test and from \<open>1.75\<close> time units upwards every logarithm of the loop
  is at least 0, so \<open>diff\<close> is the distance to the exponent chosen. Then the field returned
  decodes to the request within the spacing of the multipliers: the loop keeps a pair whose
  \<open>diff\<close> is at most \<open>log 2 (5 / 4)\<close> up to rounding, because the four multipliers
  \<open>1, 1.25, 1.5, 1.75\<close> are never further apart than the factor \<open>5 / 4\<close>.
\<close>

lemma step_candidate:
  "power_from_seconds_step seconds time_unit i (ld, lr) =
     (case candidate seconds time_unit i of
        (k, d) \<Rightarrow> if k < 0x20 \<and> d < ld then (d, push_bit 6 i OR push_bit 1 k) else (ld, lr))"
  unfolding power_from_seconds_step_def candidate_def Let_def
  by (simp split: prod.splits)

lemma step_select:
  assumes "candidate seconds time_unit i = (k, d)" and "k < 0x20"
    and "power_from_seconds_step seconds time_unit i (ld, lr) = (ld', lr')"
  shows "ld' \<le> d \<and> ld' \<le> ld \<and>
         ((ld', lr') = (ld, lr) \<or> (ld' = d \<and> lr' = push_bit 6 i OR push_bit 1 k))"
  using assms(3) unfolding step_candidate assms(1) using assms(2)
  by (auto split: if_splits)

lemma fold_select:
  assumes c: "\<And>i. i \<in> {0, 1, 2, 3} \<Longrightarrow> fst (candidate seconds time_unit i) < 0x20"
    and f: "fold (power_from_seconds_step seconds time_unit) [0, 1, 2, 3] (1, 0) = (d, r)"
  shows "(\<forall>i \<in> {0, 1, 2, 3}. d \<le> snd (candidate seconds time_unit i)) \<and>
         ((d, r) = (1, 0) \<or>
          (\<exists>j \<in> {0, 1, 2, 3}. d = snd (candidate seconds time_unit j) \<and>
             r = push_bit 6 j OR push_bit 1 (fst (candidate seconds time_unit j))))"
proof -
  obtain d0 r0 where s0: "power_from_seconds_step seconds time_unit 0 (1, 0) = (d0, r0)"
    by (cases "power_from_seconds_step seconds time_unit 0 (1, 0)")
  obtain d1 r1 where s1: "power_from_seconds_step seconds time_unit 1 (d0, r0) = (d1, r1)"
    by (cases "power_from_seconds_step seconds time_unit 1 (d0, r0)")
  obtain d2 r2 where s2: "power_from_seconds_step seconds time_unit 2 (d1, r1) = (d2, r2)"
    by (cases "power_from_seconds_step seconds time_unit 2 (d1, r1)")
  obtain d3 r3 where s3: "power_from_seconds_step seconds time_unit 3 (d2, r2) = (d3, r3)"
    by (cases "power_from_seconds_step seconds time_unit 3 (d2, r2)")
  have e: "d3 = d" "r3 = r" using f by (simp_all add: s0 s1 s2 s3)
  obtain k0 c0 where c0: "candidate seconds time_unit 0 = (k0, c0)"
    by (cases "candidate seconds time_unit 0")
  obtain k1 c1 where c1: "candidate seconds time_unit 1 = (k1, c1)"
    by (cases "candidate seconds time_unit 1")
  obtain k2 c2 where c2: "candidate seconds time_unit 2 = (k2, c2)"
    by (cases "candidate seconds time_unit 2")
  obtain k3 c3 where c3: "candidate seconds time_unit 3 = (k3, c3)"
    by (cases "candidate seconds time_unit 3")
  have k: "k0 < 0x20" "k1 < 0x20" "k2 < 0x20" "k3 < 0x20"
    using c[of 0] c[of 1] c[of 2] c[of 3] by (simp_all add: c0 c1 c2 c3)
  note a0 = step_select[OF c0 k(1) s0]
  note a1 = step_select[OF c1 k(2) s1]
  note a2 = step_select[OF c2 k(3) s2]
  note a3 = step_select[OF c3 k(4) s3]
  have le: "d3 \<le> c0" "d3 \<le> c1" "d3 \<le> c2" "d3 \<le> c3"
    using a0 a1 a2 a3 by linarith+
  have sel: "(d3, r3) = (1, 0) \<or>
     (d3 = c0 \<and> r3 = push_bit 6 0 OR push_bit 1 k0) \<or>
     (d3 = c1 \<and> r3 = push_bit 6 1 OR push_bit 1 k1) \<or>
     (d3 = c2 \<and> r3 = push_bit 6 2 OR push_bit 1 k2) \<or>
     (d3 = c3 \<and> r3 = push_bit 6 3 OR push_bit 1 k3)"
    using a0 a1 a2 a3 by (elim conjE disjE) simp_all
  show ?thesis
    using le sel unfolding e by (auto simp: c0 c1 c2 c3)
qed

lemma field_decode_bits:
  fixes i k :: int
  assumes "n \<le> 1"
  shows "drop_bit 6 (push_bit 6 (take_bit 2 i) OR push_bit n (take_bit 5 k)) AND mask 2
           = take_bit 2 i"
    and "drop_bit n (push_bit 6 (take_bit 2 i) OR push_bit n (take_bit 5 k)) AND mask 5
           = take_bit 5 k"
  using assms by (auto intro!: bit_eqI simp: bit_simps)

lemma field_decode:
  fixes i k :: int
  assumes "0 \<le> i" and "i \<le> 3" and "0 \<le> k" and "k < 0x20"
  shows "drop_bit 6 (push_bit 6 i OR push_bit 1 k) AND 0x3 = i"
    and "drop_bit 1 (push_bit 6 i OR push_bit 1 k) AND 0x1f = k"
proof -
  have i: "take_bit 2 i = i" using assms(1,2) by (simp add: take_bit_int_eq_self)
  have k: "take_bit 5 k = k" using assms(3,4) by (simp add: take_bit_int_eq_self)
  have m: "(0x3 :: int) = mask 2" "(0x1f :: int) = mask 5" by (simp_all add: mask_eq_exp_minus_1)
  show "drop_bit 6 (push_bit 6 i OR push_bit 1 k) AND 0x3 = i"
    using field_decode_bits(1)[of 1 i k] unfolding i k m by simp
  show "drop_bit 1 (push_bit 6 i OR push_bit 1 k) AND 0x1f = k"
    using field_decode_bits(2)[of 1 i k] unfolding i k m by simp
qed

lemma power_to_seconds_field:
  assumes "0 \<le> i" and "i \<le> 3" and "0 \<le> k" and "k < 0x20"
    and "0 < time_unit" and "time_unit < 2 ^ 24"
  shows "power_to_seconds (push_bit 6 i OR push_bit 1 k) time_unit
           = fl32 (2 powr of_int k * (of_int (4 + i) / 4) / of_int time_unit)"
proof -
  have m: "fadd (i2f 1) (fdiv (i2f i) 4) = of_int (4 + i) / 4"
    using assms(1,2) by (rule multiplier_exact)
  have ik: "i2f k = of_int k" using assms(3,4) by (intro i2f_exact) simp
  have "fl32 (of_int 1 * 2 powr of_int k) = of_int 1 * 2 powr of_int k"
    by (rule fl32_dyadic) simp
  then have x: "exp2f (of_int k) = 2 powr of_int k" by (simp add: exp2f_def)
  have u: "i2f time_unit = of_int time_unit" using assms(5,6) by (intro i2f_exact) simp
  have "(2::real) powr of_int (k - 2) = 2 powr of_int k / 4" by (simp add: powr_diff)
  then have "(2::real) powr of_int k * (of_int (4 + i) / 4)
        = of_int (4 + i) * 2 powr of_int (k - 2)" by simp
  moreover have "fl32 (of_int (4 + i) * 2 powr of_int (k - 2))
        = of_int (4 + i) * 2 powr of_int (k - 2)"
    using assms(1,2) by (intro fl32_dyadic) simp
  ultimately have p: "fmul (2 powr of_int k) (of_int (4 + i) / 4)
        = 2 powr of_int k * (of_int (4 + i) / 4)"
    by (simp only: fmul_def)
  show ?thesis
    unfolding power_to_seconds_def Let_def field_decode[OF assms(1-4)]
    unfolding m ik x u p unfolding fdiv_def ..
qed

lemma product_bounds:
  assumes "0 < time_unit" and "time_unit < 2 ^ 24"
    and "7 / 4 \<le> seconds * of_int time_unit"
    and "\<not> 0x1f \<le> log2f (fdiv (fmul seconds (i2f time_unit)) (175 / 100))"
  shows "7 / 4 \<le> fmul seconds (i2f time_unit)" and "fmul seconds (i2f time_unit) < 7 * 2 ^ 29"
proof -
  define P where "P = fmul seconds (i2f time_unit)"
  have u: "i2f time_unit = of_int time_unit" using assms(1,2) by (intro i2f_exact) simp
  have "fl32 (of_int 7 / 4) \<le> fl32 (seconds * of_int time_unit)"
    using assms(3) by (intro fl32_mono) simp
  moreover have "fl32 (of_int 7 / 4) = of_int 7 / 4" by (rule fl32_quarter) simp
  ultimately show "7 / 4 \<le> fmul seconds (i2f time_unit)" by (simp add: fmul_def u)
  show "fmul seconds (i2f time_unit) < 7 * 2 ^ 29"
  proof (rule ccontr)
    assume "\<not> fmul seconds (i2f time_unit) < 7 * 2 ^ 29"
    then have "2 ^ 31 \<le> P / (175 / 100)" by (simp add: P_def)
    then have "fl32 (2 ^ 31) \<le> fl32 (P / (175 / 100))" by (rule fl32_mono)
    then have b: "2 ^ 31 \<le> fdiv P (175 / 100)" by (simp only: fl32_pow2 fdiv_def)
    have "(0::real) < 2 ^ 31" by simp
    then have "0 < fdiv P (175 / 100)" using b by linarith
    then have "log 2 (2 ^ 31) \<le> log 2 (fdiv P (175 / 100))"
      using b by (subst log_le_cancel_iff) simp_all
    moreover have "log 2 ((2::real) ^ 31) = real 31 * log 2 2" by (rule log_nat_power) simp
    ultimately have "31 \<le> log 2 (fdiv P (175 / 100))" by simp
    then have "fl32 31 \<le> fl32 (log 2 (fdiv P (175 / 100)))" by (rule fl32_mono)
    then have "0x1f \<le> log2f (fdiv P (175 / 100))" by (simp add: log2f_def)
    then show False using assms(4) by (simp add: P_def)
  qed
qed

lemma log2_le_255_8:
  assumes "1 \<le> v" and "v \<le> 7 * 2 ^ 29"
  shows "0 \<le> log 2 v" and "log 2 v \<le> 255 / 8"
proof -
  show "0 \<le> log 2 v" using assms(1) by simp
  have vpos: "0 < v" using assms(1) by linarith
  have "v ^ 8 \<le> (7 * 2 ^ 29) ^ 8" using assms(2) vpos by (intro power_mono) simp_all
  also have "\<dots> \<le> (2::real) ^ 255" by simp
  finally have "v ^ 8 \<le> 2 ^ 255" .
  then have "log 2 (v ^ 8) \<le> log 2 (2 ^ 255)"
    using vpos by (subst log_le_cancel_iff) simp_all
  moreover have "log 2 (v ^ 8) = real 8 * log 2 v" by (rule log_nat_power) (use vpos in simp_all)
  moreover have "log 2 ((2::real) ^ 255) = real 255 * log 2 2" by (rule log_nat_power) simp
  ultimately show "log 2 v \<le> 255 / 8" by simp
qed

lemma candidate_bounds:
  fixes i :: int
  assumes i: "0 \<le> i" "i \<le> 3"
    and P: "P = fmul seconds (i2f time_unit)" "7 / 4 \<le> P" "P < 7 * 2 ^ 29"
    and v: "v = fl32 (P / (of_int (4 + i) / 4))"
  shows "\<exists>k d. candidate seconds time_unit i = (k, d) \<and> 0 \<le> k \<and> k < 0x20 \<and> 0 \<le> d \<and>
           \<bar>of_int k - log 2 v\<bar> \<le> d + 1 / 262144"
proof -
  define m :: real where "m = of_int (4 + i) / 4"
  have m: "1 \<le> m" "m \<le> 7 / 4" using i by (simp_all add: m_def)
  have mpos: "0 < m" using m(1) by linarith
  have Ppos: "0 < P" using P(2) by linarith
  have "1 * m \<le> P" using m(2) P(2) by linarith
  then have x1: "1 \<le> P / m" using mpos by (simp add: pos_le_divide_eq)
  have "P / m \<le> P / 1" using m(1) Ppos by (intro divide_left_mono) simp_all
  then have x2: "P / m \<le> 7 * 2 ^ 29" using P(3) by simp
  have "fl32 1 \<le> fl32 (P / m)" using x1 by (rule fl32_mono)
  then have v1: "1 \<le> v" by (simp add: v m_def)
  have "fl32 (P / m) \<le> fl32 (of_int 7 * 2 ^ 29)" using x2 by (intro fl32_mono) simp
  moreover have "fl32 (of_int 7 * 2 ^ 29) = of_int 7 * 2 ^ 29" by (rule fl32_int_pow2) simp
  ultimately have v2: "v \<le> 7 * 2 ^ 29" by (simp add: v m_def)
  define lg where "lg = log 2 v"
  have lg: "0 \<le> lg" "lg \<le> 255 / 8"
    using log2_le_255_8[OF v1 v2] by (simp_all add: lg_def)
  define L where "L = fl32 lg"
  have "fl32 0 \<le> fl32 lg" using lg(1) by (rule fl32_mono)
  then have L0: "0 \<le> L" by (simp add: L_def fl32_0)
  have "fl32 lg \<le> fl32 (of_int 255 / 8)" using lg(2) by (intro fl32_mono) simp
  moreover have "fl32 (of_int 255 / 8) = of_int 255 / 8" by (rule fl32_eighth) simp
  ultimately have L1: "L \<le> 255 / 8" by (simp add: L_def)
  have "\<bar>lg\<bar> \<le> 32" using lg by linarith
  then have "\<bar>fl32 lg - lg\<bar> \<le> 32 / 16777216" by (rule fl32_abs_err)
  then have Le: "\<bar>L - lg\<bar> \<le> 1 / 524288" by (simp add: L_def)
  define k where "k = f2i L"
  have kf: "k = \<lfloor>L\<rfloor>" using L0 by (simp add: k_def f2i_def)
  have k0: "0 \<le> k" using L0 by (simp add: kf)
  have k31: "k \<le> 31" using L1 unfolding kf by (simp add: floor_le_iff)
  have kL: "of_int k \<le> L" "L < of_int k + 1" unfolding kf by linarith+
  have ik: "i2f k = of_int k" using k0 k31 by (intro i2f_exact) simp
  define d where "d = fsub L (i2f k)"
  have dd: "d = fl32 (L - of_int k)" by (simp add: d_def fsub_def ik)
  have "fl32 0 \<le> fl32 (L - of_int k)" using kL(1) by (intro fl32_mono) simp
  then have d0: "0 \<le> d" by (simp add: dd fl32_0)
  have "fl32 (L - of_int k) \<le> fl32 1" using kL(2) by (intro fl32_mono) simp
  then have d1: "d \<le> 1" by (simp add: dd)
  have "\<bar>L - of_int k\<bar> \<le> 1" using kL by linarith
  then have "\<bar>fl32 (L - of_int k) - (L - of_int k)\<bar> \<le> 1 / 16777216" by (rule fl32_abs_err)
  then have de: "\<bar>d - (L - of_int k)\<bar> \<le> 1 / 16777216" by (simp add: dd)
  have mm: "fadd (i2f 1) (fdiv (i2f i) 4) = of_int (4 + i) / 4"
    using i by (rule multiplier_exact)
  have vv: "fdiv (fmul seconds (i2f time_unit)) (fadd (i2f 1) (fdiv (i2f i) 4)) = v"
    unfolding mm unfolding v P(1) fdiv_def ..
  have c: "candidate seconds time_unit i =
      (if k < 0x19 \<and> d > 1 / 2 then (k + 1, fsub 1 d) else (k, d))"
    unfolding candidate_def vv Let_def d_def k_def L_def lg_def log2f_def ..
  show ?thesis
  proof (cases "k < 0x19 \<and> d > 1 / 2")
    case False
    then have c': "candidate seconds time_unit i = (k, d)" unfolding c by simp
    have "\<bar>of_int k - lg\<bar> \<le> d + 1 / 262144" using de Le kL d0 by linarith
    then show ?thesis using c' k0 k31 d0 unfolding lg_def by (intro exI[of _ k] exI[of _ d]) simp
  next
    case True
    define d' where "d' = fsub 1 d"
    have c': "candidate seconds time_unit i = (k + 1, d')" unfolding c d'_def using True by simp
    have "fl32 0 \<le> fl32 (1 - d)" using d1 by (intro fl32_mono) simp
    then have d'0: "0 \<le> d'" by (simp add: d'_def fsub_def fl32_0)
    have "\<bar>1 - d\<bar> \<le> 1" using d0 d1 by linarith
    then have "\<bar>fl32 (1 - d) - (1 - d)\<bar> \<le> 1 / 16777216" by (rule fl32_abs_err)
    then have d'e: "\<bar>d' - (1 - d)\<bar> \<le> 1 / 16777216" by (simp add: d'_def fsub_def)
    have "\<bar>(of_int k + 1) - lg\<bar> \<le> d' + 1 / 262144" using de Le d'e d'0 kL d0 d1 by linarith
    then have "\<bar>of_int (k + 1) - lg\<bar> \<le> d' + 1 / 262144" by simp
    then show ?thesis using c' k0 True d'0 unfolding lg_def
      by (intro exI[of _ "k + 1"] exI[of _ d']) simp
  qed
qed

lemma log2_five_quarters: "0 \<le> log 2 (5 / 4 :: real)" "log 2 (5 / 4 :: real) \<le> 3 / 8"
proof -
  show "0 \<le> log 2 (5 / 4 :: real)" by simp
  have "(5 / 4 :: real) ^ 8 \<le> 2 ^ 3" by (simp add: power_divide)
  then have "log 2 ((5 / 4 :: real) ^ 8) \<le> log 2 (2 ^ 3)"
    by (subst log_le_cancel_iff) simp_all
  moreover have "log 2 ((5 / 4 :: real) ^ 8) = real 8 * log 2 (5 / 4)"
    by (rule log_nat_power) simp
  moreover have "log 2 ((2::real) ^ 3) = real 3 * log 2 2" by (rule log_nat_power) simp
  ultimately show "log 2 (5 / 4 :: real) \<le> 3 / 8" by simp
qed

lemma candidate_close:
  assumes P: "P = fmul seconds (i2f time_unit)" "7 / 4 \<le> P" "P < 7 * 2 ^ 29"
  shows "\<exists>i \<in> {0, 1, 2, 3}. snd (candidate seconds time_unit i) \<le> log 2 (5 / 4) + 1 / 262144"
proof -
  have Ppos: "0 < P" using P(2) by linarith
  define n where "n = \<lfloor>log 2 P\<rfloor>"
  define T :: real where "T = 2 powr of_int n"
  have Tpos: "0 < T" by (simp add: T_def)
  have "P \<noteq> 0" using Ppos by simp
  from binade[OF this] have b: "T \<le> P" "P < 2 * T"
    using Ppos by (simp_all add: T_def n_def powr_add)
  have "0 \<le> log 2 P" using P(2) by simp
  then have n0: "0 \<le> n" by (simp add: n_def)
  have "P \<le> 7 * 2 ^ 29" using P(3) by simp
  from log2_le_255_8(2)[OF _ this] P(2) have "log 2 P \<le> 255 / 8" by simp
  then have n31: "n \<le> 31" unfolding n_def by (simp add: floor_le_iff)
  define j where "j = \<lfloor>4 * P / T\<rfloor>"
  have "4 \<le> 4 * P / T" using b(1) Tpos by (simp add: pos_le_divide_eq)
  then have j4: "4 \<le> j" unfolding j_def by (simp add: le_floor_iff)
  have "4 * P / T < 8" using b(2) Tpos by (simp add: pos_divide_less_eq)
  then have j7: "j \<le> 7" unfolding j_def by (simp add: floor_le_iff)
  define jT where "jT = of_int j * T"
  have "of_int j \<le> 4 * P / T" unfolding j_def by linarith
  then have jl: "jT \<le> 4 * P" using Tpos by (simp add: pos_le_divide_eq jT_def)
  have "4 * P / T < of_int j + 1" unfolding j_def by linarith
  then have ju: "4 * P < jT + T" using Tpos by (simp add: pos_divide_less_eq jT_def algebra_simps)
  have "4 * T \<le> of_int j * T" using j4 Tpos by (intro mult_right_mono) simp_all
  then have j4T: "4 * T \<le> jT" by (simp add: jT_def)
  define i where "i = j - 4"
  have i: "0 \<le> i" "i \<le> 3" using j4 j7 by (simp_all add: i_def)
  have ji: "of_int (4 + i) = (of_int j :: real)" by (simp add: i_def)
  define x where "x = P / (of_int (4 + i) / 4)"
  have jpos: "(0::real) < of_int j" using j4 by simp
  have "x = P / (of_int j / 4)" unfolding x_def ji ..
  then have xe: "x = 4 * P / of_int j" by simp
  have x1: "T \<le> x" unfolding xe using jl jpos by (simp add: pos_le_divide_eq jT_def mult.commute)
  have "16 * P \<le> 5 * jT" using ju j4T by linarith
  then have "4 * P \<le> (5 / 4 * T) * of_int j" by (simp add: jT_def mult.commute mult.left_commute)
  then have x2: "x \<le> 5 / 4 * T" unfolding xe using jpos by (simp only: pos_divide_le_eq)
  define v where "v = fl32 x"
  have fT: "fl32 T = T"
    using fl32_dyadic[of 1 n] by (simp add: T_def)
  have f5T: "fl32 (5 / 4 * T) = 5 / 4 * T"
  proof -
    have a: "fl32 (of_int 5 * 2 powr of_int (n - 2)) = of_int 5 * 2 powr of_int (n - 2)"
      by (rule fl32_dyadic) simp
    have e: "of_int 5 * 2 powr of_int (n - 2) = 5 / 4 * T"
      by (simp add: T_def powr_diff)
    show ?thesis using a unfolding e .
  qed
  have v1: "T \<le> v" using fl32_mono[OF x1] by (simp add: v_def fT)
  have v2: "v \<le> 5 / 4 * T" using fl32_mono[OF x2] unfolding f5T v_def .
  have vpos: "0 < v" using v1 Tpos by linarith
  define lg where "lg = log 2 v"
  have "log 2 T \<le> log 2 v" using v1 Tpos vpos by simp
  then have lg1: "of_int n \<le> lg" by (simp add: lg_def T_def)
  have "log 2 v \<le> log 2 (5 / 4 * T)" using v2 Tpos vpos by simp
  also have "\<dots> = log 2 (5 / 4) + log 2 T" using Tpos by (subst log_mult) simp_all
  finally have lg2: "lg \<le> log 2 (5 / 4) + of_int n" by (simp add: lg_def T_def)
  note lam = log2_five_quarters
  define L where "L = fl32 lg"
  have fn: "fl32 (of_int n) = of_int n" using n0 n31 by (intro fl32_of_int_lt) simp
  have L1: "of_int n \<le> L" using fl32_mono[OF lg1] by (simp add: L_def fn)
  have "lg \<le> of_int (8 * n + 3) / 8" using lg2 lam(2) by simp
  then have "fl32 lg \<le> fl32 (of_int (8 * n + 3) / 8)" by (rule fl32_mono)
  moreover have "fl32 (of_int (8 * n + 3) / 8) = of_int (8 * n + 3) / 8"
    using n0 n31 by (intro fl32_eighth) simp
  ultimately have L2: "L \<le> of_int n + 3 / 8" by (simp add: L_def)
  have "\<bar>lg\<bar> \<le> 32" using lg1 lg2 lam n0 n31 by simp
  then have "\<bar>fl32 lg - lg\<bar> \<le> 32 / 16777216" by (rule fl32_abs_err)
  then have Le: "\<bar>L - lg\<bar> \<le> 1 / 524288" by (simp add: L_def)
  have L0: "0 \<le> L" using L1 n0 by simp
  have kn: "f2i L = n" using L0 L1 L2 by (simp add: f2i_def) linarith
  have ik: "i2f n = of_int n" using n0 n31 by (intro i2f_exact) simp
  define d where "d = fsub L (i2f n)"
  have dd: "d = fl32 (L - of_int n)" by (simp add: d_def fsub_def ik)
  have "fl32 (L - of_int n) \<le> fl32 (of_int 3 / 8)" using L2 by (intro fl32_mono) simp
  moreover have "fl32 (of_int 3 / 8) = of_int 3 / 8" by (rule fl32_eighth) simp
  ultimately have d38: "d \<le> 3 / 8" by (simp add: dd)
  have "\<bar>L - of_int n\<bar> \<le> 1" using L1 L2 by linarith
  then have "\<bar>fl32 (L - of_int n) - (L - of_int n)\<bar> \<le> 1 / 16777216" by (rule fl32_abs_err)
  then have de: "\<bar>d - (L - of_int n)\<bar> \<le> 1 / 16777216" by (simp add: dd)
  have mm: "fadd (i2f 1) (fdiv (i2f i) 4) = of_int (4 + i) / 4"
    using i by (rule multiplier_exact)
  have vv: "fdiv (fmul seconds (i2f time_unit)) (fadd (i2f 1) (fdiv (i2f i) 4)) = v"
    unfolding mm unfolding v_def x_def P(1) fdiv_def ..
  have "candidate seconds time_unit i =
      (if f2i L < 0x19 \<and> fsub L (i2f (f2i L)) > 1 / 2
       then (f2i L + 1, fsub 1 (fsub L (i2f (f2i L)))) else (f2i L, fsub L (i2f (f2i L))))"
    unfolding candidate_def vv Let_def L_def lg_def log2f_def ..
  then have c: "candidate seconds time_unit i = (n, d)"
    unfolding kn using d38 by (simp add: d_def)
  have "d \<le> log 2 (5 / 4) + 1 / 262144" using de Le lg2 by linarith
  then have "snd (candidate seconds time_unit i) \<le> log 2 (5 / 4) + 1 / 262144" by (simp add: c)
  moreover have "i \<in> {0, 1, 2, 3}" using i by auto
  ultimately show ?thesis by blast
qed

lemma log2_one_plus:
  assumes "0 < n"
  shows "1 / real n \<le> log 2 (1 + 1 / real n)"
proof -
  have "(0::real) \<le> 1 / real n" by simp
  then have "- 1 \<le> 1 / real n" by linarith
  then have "1 + real n * (1 / real n) \<le> (1 + 1 / real n) ^ n"
    by (rule Bernoulli_inequality)
  then have "2 \<le> (1 + 1 / real n) ^ n" using assms by simp
  moreover have "0 < (1 + 1 / real n) ^ n" by (intro zero_less_power) (simp add: add_pos_nonneg)
  ultimately have "log 2 2 \<le> log 2 ((1 + 1 / real n) ^ n)"
    by (subst log_le_cancel_iff) simp_all
  moreover have "log 2 ((1 + 1 / real n) ^ n) = real n * log 2 (1 + 1 / real n)"
    by (rule log_nat_power) (simp add: add_pos_nonneg)
  ultimately have "1 \<le> real n * log 2 (1 + 1 / real n)" by simp
  then show ?thesis using assms by (simp add: pos_divide_le_eq mult.commute)
qed

lemma log2_slack: "log 2 (5 / 4) + 1 / 131072 \<le> log 2 (12500125 / 10000000 :: real)"
proof -
  have "1 / real 131072 \<le> log 2 (1 + 1 / real 131072)" by (rule log2_one_plus) simp
  then have a: "1 / 131072 \<le> log 2 (131073 / 131072 :: real)" by simp
  have "log 2 (5 / 4 * (131073 / 131072) :: real) = log 2 (5 / 4) + log 2 (131073 / 131072)"
    by (subst log_mult) simp_all
  moreover have "log 2 (5 / 4 * (131073 / 131072) :: real) \<le> log 2 (12500125 / 10000000)"
    by (subst log_le_cancel_iff) simp_all
  ultimately show ?thesis using a by linarith
qed

lemma powr_window:
  assumes "0 < v" and "1 < c" and "\<bar>of_int k - log 2 v\<bar> \<le> log 2 c"
  shows "2 powr of_int k \<le> v * c" and "v \<le> 2 powr of_int k * c"
proof -
  have c: "0 < c" using assms(2) by linarith
  have "of_int k \<le> log 2 v + log 2 c" using assms(3) by linarith
  also have "\<dots> = log 2 (v * c)" using assms(1) c by (subst log_mult) simp_all
  finally have "2 powr of_int k \<le> 2 powr log 2 (v * c)" by (intro powr_mono) simp_all
  then show "2 powr of_int k \<le> v * c" using assms(1) c by simp
  have "log 2 v \<le> of_int k + log 2 c" using assms(3) by linarith
  then have "2 powr log 2 v \<le> 2 powr (of_int k + log 2 c)" by (intro powr_mono) simp_all
  then show "v \<le> 2 powr of_int k * c" using assms(1) c by (simp add: powr_add)
qed

lemma fl32_window:
  assumes "0 < x"
  shows "x * (999999 / 1000000) \<le> fl32 x" and "fl32 x \<le> x * (1000001 / 1000000)"
proof -
  have "\<bar>fl32 x - x\<bar> \<le> \<bar>x\<bar> / 2 ^ 24" by (rule fl32_rel_err)
  moreover have "\<bar>x\<bar> / 2 ^ 24 \<le> x / 1000000" using assms by simp
  ultimately have "\<bar>fl32 x - x\<bar> \<le> x / 1000000" by linarith
  then show "x * (999999 / 1000000) \<le> fl32 x" and "fl32 x \<le> x * (1000001 / 1000000)"
    by linarith+
qed

lemma power_from_seconds_round_trip:
  assumes u: "0 < time_unit" "time_unit < 2 ^ 24"
    and lo: "7 / 4 \<le> seconds * of_int time_unit"
    and hi: "\<not> 0x1f \<le> log2f (fdiv (fmul seconds (i2f time_unit)) (175 / 100))"
  shows "seconds * (7999 / 10000)
           \<le> power_to_seconds (power_from_seconds seconds time_unit) time_unit"
    and "power_to_seconds (power_from_seconds seconds time_unit) time_unit
           \<le> seconds * (12501 / 10000)"
proof -
  define P where "P = fmul seconds (i2f time_unit)"
  note Pb = product_bounds[OF u lo hi, folded P_def]
  have Pd: "P = fmul seconds (i2f time_unit)" by (rule P_def)
  have upos: "(0::real) < of_int time_unit" using u(1) by simp
  define su where "su = seconds * of_int time_unit"
  have supos: "0 < su" using lo by (simp add: su_def)
  have iu: "i2f time_unit = of_int time_unit" using u by (intro i2f_exact) simp
  have Pf: "P = fl32 su" by (simp add: P_def fmul_def iu su_def)
  note P1 = fl32_window[OF supos, folded Pf]
  obtain d r where f: "fold (power_from_seconds_step seconds time_unit) [0, 1, 2, 3] (1, 0) = (d, r)"
    by (cases "fold (power_from_seconds_step seconds time_unit) [0, 1, 2, 3] (1, 0)")
  have r: "power_from_seconds seconds time_unit = r"
    unfolding power_from_seconds_def f using hi by simp
  have valid: "fst (candidate seconds time_unit i) < 0x20" if "i \<in> {0, 1, 2, 3}" for i
  proof -
    have "0 \<le> i" "i \<le> 3" using that by auto
    from candidate_bounds[OF this Pd Pb refl] show ?thesis by auto
  qed
  note sel = fold_select[OF valid f]
  obtain i0 where i0: "i0 \<in> {0, 1, 2, 3}"
      "snd (candidate seconds time_unit i0) \<le> log 2 (5 / 4) + 1 / 262144"
    using candidate_close[OF Pd Pb] by blast
  have dle: "d \<le> log 2 (5 / 4) + 1 / 262144" using sel i0 by force
  then have "d < 1" using log2_five_quarters(2) by linarith
  then have "(d, r) \<noteq> (1, 0)" by simp
  then obtain j where j: "j \<in> {0, 1, 2, 3}" "d = snd (candidate seconds time_unit j)"
      "r = push_bit 6 j OR push_bit 1 (fst (candidate seconds time_unit j))"
    using sel by blast
  have jr: "0 \<le> j" "j \<le> 3" using j(1) by auto
  define m :: real where "m = of_int (4 + j) / 4"
  have mpos: "0 < m" using jr by (simp add: m_def)
  define v where "v = fl32 (P / m)"
  obtain k dj where c: "candidate seconds time_unit j = (k, dj)" "0 \<le> k" "k < 0x20"
      "\<bar>of_int k - log 2 v\<bar> \<le> dj + 1 / 262144"
    using candidate_bounds[OF jr Pd Pb refl] unfolding v_def m_def by blast
  have "dj = d" using j(2) c(1) by simp
  then have "\<bar>of_int k - log 2 v\<bar> \<le> log 2 (5 / 4) + 1 / 131072" using c(4) dle by linarith
  then have kw: "\<bar>of_int k - log 2 v\<bar> \<le> log 2 (12500125 / 10000000)"
    using log2_slack by linarith
  have Ppos: "0 < P" using Pb(1) by linarith
  have xpos: "0 < P / m" using Ppos mpos by simp
  note V1 = fl32_window[OF xpos, folded v_def]
  have vpos: "0 < v" using V1(1) xpos by (simp add: zero_less_mult_iff) 
  define K :: real where "K = 2 powr of_int k"
  have W: "K \<le> v * (12500125 / 10000000)" "v \<le> K * (12500125 / 10000000)"
    unfolding K_def using powr_window[OF vpos _ kw] by simp_all
  define Km where "Km = K * m"
  define vm where "vm = v * m"
  have "P / m * m = P" using mpos by simp
  have vm1: "P * (999999 / 1000000) \<le> vm"
  proof -
    have "P / m * (999999 / 1000000) * m \<le> v * m"
      using V1(1) mpos by (intro mult_right_mono) simp_all
    then show ?thesis using mpos by (simp add: vm_def)
  qed
  have vm2: "vm \<le> P * (1000001 / 1000000)"
  proof -
    have "v * m \<le> P / m * (1000001 / 1000000) * m"
      using V1(2) mpos by (intro mult_right_mono) simp_all
    then show ?thesis using mpos by (simp add: vm_def)
  qed
  have Km1: "Km \<le> vm * (12500125 / 10000000)"
  proof -
    have "K * m \<le> v * (12500125 / 10000000) * m"
      using W(1) mpos by (intro mult_right_mono) simp_all
    then show ?thesis by (simp add: Km_def vm_def)
  qed
  have Km2: "vm \<le> Km * (12500125 / 10000000)"
  proof -
    have "v * m \<le> K * (12500125 / 10000000) * m"
      using W(2) mpos by (intro mult_right_mono) simp_all
    then show ?thesis by (simp add: Km_def vm_def)
  qed
  have Kpos: "0 < Km" using mpos by (simp add: Km_def K_def)
  define D where "D = Km / of_int time_unit"
  have Dpos: "0 < D" using Kpos upos by (simp add: D_def)
  have "Km \<le> su * (12500151 / 10000000)" using Km1 vm2 P1(2) supos by linarith
  then have "Km \<le> seconds * (12500151 / 10000000) * of_int time_unit" by (simp add: su_def)
  then have D2: "D \<le> seconds * (12500151 / 10000000)"
    unfolding D_def using upos by (simp only: pos_divide_le_eq)
  have "su * (7999904 / 10000000) \<le> Km" using Km2 vm1 P1(1) supos by linarith
  then have "seconds * (7999904 / 10000000) * of_int time_unit \<le> Km" by (simp add: su_def)
  then have D1: "seconds * (7999904 / 10000000) \<le> D"
    unfolding D_def using upos by (simp only: pos_le_divide_eq)
  have dec: "power_to_seconds r time_unit = fl32 D"
    unfolding j(3) c(1) fst_conv D_def Km_def K_def m_def
    using power_to_seconds_field[OF jr c(2,3) u] by simp
  note F = fl32_window[OF Dpos, folded dec]
  have spos: "0 < seconds" using supos upos by (simp add: su_def zero_less_mult_iff)
  show "seconds * (7999 / 10000)
           \<le> power_to_seconds (power_from_seconds seconds time_unit) time_unit"
    unfolding r using F(1) D1 spos by linarith
  show "power_to_seconds (power_from_seconds seconds time_unit) time_unit
           \<le> seconds * (12501 / 10000)"
    unfolding r using F(2) D2 spos by linarith
qed

section \<open>Power-limit write: the bits kept\<close>

text \<open>
  When each time window is either not positive (and skipped) or at least 1.75 time
  units, \<open>power_from_seconds\<close> returns a field value, and the value computed for
  writing keeps every bit outside the fields it sets; the two power fields hold the
  encoded requests.
\<close>

lemma units_positive:
  "0 < power_unit_of units" "0 < time_unit_of units" "time_unit_of units < 2 ^ 24"
proof -
  show "0 < power_unit_of units" "0 < time_unit_of units"
    by (simp_all add: power_unit_of_eq time_unit_of_eq)
  have "unat (drop_bit 16 units AND 0xf) \<le> unat (0xf :: u64)"
    by (rule word_and_le1 [THEN word_le_nat_alt [THEN iffD1]])
  then have "(2::int) ^ unat (drop_bit 16 units AND 0xf) \<le> 2 ^ 15"
    by (intro power_increasing) simp_all
  then show "time_unit_of units < 2 ^ 24" by (simp add: time_unit_of_eq)
qed

lemma time_field_word:
  assumes "time_field t"
  shows "push_bit n (word_of_int t :: u64) = push_bit (n + 1) (take_bit 7 (word_of_int (t div 2)))"
proof -
  have t: "t = 2 * (t div 2)" "0 \<le> t div 2" "t div 2 < 2 ^ 7"
    using assms by (auto simp: time_field_def)
  have "take_bit 7 (t div 2) = t div 2" using t(2,3) by (simp add: take_bit_int_eq_self)
  then have a: "take_bit 7 (word_of_int (t div 2) :: u64) = word_of_int (t div 2)"
    by (metis take_bit_of_int)
  have "(word_of_int t :: u64) = word_of_int (2 * (t div 2))" using t(1) by simp
  also have "\<dots> = push_bit 1 (word_of_int (t div 2))" by (simp add: push_bit_eq_mult)
  finally have "push_bit n (word_of_int t :: u64) = push_bit n (push_bit 1 (word_of_int (t div 2)))"
    by (simp only:)
  also have "\<dots> = push_bit (n + 1) (word_of_int (t div 2))"
    by (simp only: push_bit_push_bit add.commute)
  finally show ?thesis unfolding a .
qed

lemma frame_masks:
  "(0xffff8000ffff8000 :: u64) = NOT (push_bit 32 (mask 15) OR mask 15)"
  "(0xff01ffffffffffff :: u64) = NOT (push_bit 49 (mask 7))"
  "(0xffffffffff01ffff :: u64) = NOT (push_bit 17 (mask 7))"
  by (simp_all add: mask_eq_exp_minus_1)

lemma power_limit_value_frame:
  assumes "0 < power_unit"
    and "0 < short_time_window pwr \<Longrightarrow>
           time_field (power_from_seconds (short_time_window pwr) time_unit)"
    and "0 < long_time_window pwr \<Longrightarrow>
           time_field (power_from_seconds (long_time_window pwr) time_unit)"
  shows "power_limit_value msr_limit pwr power_unit time_unit AND
           (0xffff8000ffff8000 AND
            (if 0 < short_time_window pwr then 0xff01ffffffffffff else - 1) AND
            (if 0 < long_time_window pwr then 0xffffffffff01ffff else - 1))
         = msr_limit AND
           (0xffff8000ffff8000 AND
            (if 0 < short_time_window pwr then 0xff01ffffffffffff else - 1) AND
            (if 0 < long_time_window pwr then 0xffffffffff01ffff else - 1))"
proof -
  define s where "s = power_term (short_term pwr) power_unit"
  define l where "l = power_term (long_term pwr) power_unit"
  have s: "s = take_bit 15 s" unfolding s_def using power_term_range[OF assms(1)] by simp
  have l: "l = take_bit 15 l" unfolding l_def using power_term_range[OF assms(1)] by simp
  define a :: u64 where
    "a = word_of_int (power_from_seconds (short_time_window pwr) time_unit div 2)"
  define b :: u64 where
    "b = word_of_int (power_from_seconds (long_time_window pwr) time_unit div 2)"
  have ta: "push_bit 48 (word_of_int (power_from_seconds (short_time_window pwr) time_unit) :: u64)
      = push_bit 49 (take_bit 7 a)" if "0 < short_time_window pwr"
    using time_field_word[OF assms(2)[OF that], of 48] by (simp add: a_def)
  have tb: "push_bit 16 (word_of_int (power_from_seconds (long_time_window pwr) time_unit) :: u64)
      = push_bit 17 (take_bit 7 b)" if "0 < long_time_window pwr"
    using time_field_word[OF assms(3)[OF that], of 16] by (simp add: b_def)
  have v: "power_terms_value msr_limit pwr power_unit
      = (msr_limit AND NOT (push_bit 32 (mask 15) OR mask 15)) OR push_bit 32 (take_bit 15 s)
          OR take_bit 15 l"
    unfolding power_terms_value_def Let_def frame_masks
    using s l by (simp add: s_def l_def)
  show ?thesis
  proof (cases "0 < short_time_window pwr")
    case True
    note st = this
    show ?thesis
    proof (cases "0 < long_time_window pwr")
      case True
      show ?thesis
        unfolding power_limit_value_def Let_def
        using st True by (simp add: ta tb v frame_masks del: bit.conj_disj_distrib bit.conj_disj_distrib2)
          (auto intro!: bit_word_eqI simp: bit_simps)
    next
      case False
      show ?thesis
        unfolding power_limit_value_def Let_def
        using st False by (simp add: ta v frame_masks del: bit.conj_disj_distrib bit.conj_disj_distrib2)
          (auto intro!: bit_word_eqI simp: bit_simps)
    qed
  next
    case False
    note st = this
    show ?thesis
    proof (cases "0 < long_time_window pwr")
      case True
      show ?thesis
        unfolding power_limit_value_def Let_def
        using st True by (simp add: tb v frame_masks del: bit.conj_disj_distrib bit.conj_disj_distrib2)
          (auto intro!: bit_word_eqI simp: bit_simps)
    next
      case False
      show ?thesis
        unfolding power_limit_value_def Let_def
        using st False by (simp add: v frame_masks del: bit.conj_disj_distrib bit.conj_disj_distrib2)
          (auto intro!: bit_word_eqI simp: bit_simps)
    qed
  qed
qed

lemma power_limit_clamp_fields:
  assumes "0 < power_unit"
  shows "power_terms_value msr_limit pwr power_unit AND 0x7fff
           = power_term (long_term pwr) power_unit"
    and "drop_bit 32 (power_terms_value msr_limit pwr power_unit) AND 0x7fff
           = power_term (short_term pwr) power_unit"
  using splice_fields[OF power_term_range[OF assms, of "short_term pwr"]
      power_term_range[OF assms, of "long_term pwr"], of msr_limit]
  by (simp_all add: power_terms_value_def Let_def)

lemma power_limit_value_fields:
  assumes "0 < short_time_window pwr \<Longrightarrow>
           time_field (power_from_seconds (short_time_window pwr) time_unit)"
    and "0 < long_time_window pwr \<Longrightarrow>
           time_field (power_from_seconds (long_time_window pwr) time_unit)"
  shows "power_limit_value msr_limit pwr power_unit time_unit AND 0x7fff
           = power_terms_value msr_limit pwr power_unit AND 0x7fff"
    and "drop_bit 32 (power_limit_value msr_limit pwr power_unit time_unit) AND 0x7fff
           = drop_bit 32 (power_terms_value msr_limit pwr power_unit) AND 0x7fff"
proof -
  define a :: u64 where
    "a = word_of_int (power_from_seconds (short_time_window pwr) time_unit div 2)"
  define b :: u64 where
    "b = word_of_int (power_from_seconds (long_time_window pwr) time_unit div 2)"
  define v where "v = power_terms_value msr_limit pwr power_unit"
  have ta: "push_bit 48 (word_of_int (power_from_seconds (short_time_window pwr) time_unit) :: u64)
      = push_bit 49 (take_bit 7 a)" if "0 < short_time_window pwr"
    using time_field_word[OF assms(1)[OF that], of 48] by (simp add: a_def)
  have tb: "push_bit 16 (word_of_int (power_from_seconds (long_time_window pwr) time_unit) :: u64)
      = push_bit 17 (take_bit 7 b)" if "0 < long_time_window pwr"
    using time_field_word[OF assms(2)[OF that], of 16] by (simp add: b_def)
  have e: "power_limit_value msr_limit pwr power_unit time_unit =
      (let w = (if 0 < short_time_window pwr
                then (v AND NOT (push_bit 49 (mask 7))) OR push_bit 49 (take_bit 7 a) else v)
       in if 0 < long_time_window pwr
          then (w AND NOT (push_bit 17 (mask 7))) OR push_bit 17 (take_bit 7 b) else w)"
    unfolding power_limit_value_def Let_def frame_masks v_def[symmetric]
    using ta tb by simp
  show "power_limit_value msr_limit pwr power_unit time_unit AND 0x7fff = v AND 0x7fff"
    unfolding e m15 Let_def by (auto intro!: bit_word_eqI simp: bit_simps)
  show "drop_bit 32 (power_limit_value msr_limit pwr power_unit time_unit) AND 0x7fff
          = drop_bit 32 v AND 0x7fff"
    unfolding e m15 Let_def by (auto intro!: bit_word_eqI simp: bit_simps)
qed

lemma power_limit_value_preserves:
  assumes "0 < power_unit" and "0 < time_unit" and "time_unit < 2 ^ 24"
    and "short_time_window pwr \<le> 0 \<or> 7 / 4 \<le> short_time_window pwr * of_int time_unit"
    and "long_time_window pwr \<le> 0 \<or> 7 / 4 \<le> long_time_window pwr * of_int time_unit"
  shows "power_limit_value msr_limit pwr power_unit time_unit AND
           (0xffff8000ffff8000 AND
            (if 0 < short_time_window pwr then 0xff01ffffffffffff else - 1) AND
            (if 0 < long_time_window pwr then 0xffffffffff01ffff else - 1))
         = msr_limit AND
           (0xffff8000ffff8000 AND
            (if 0 < short_time_window pwr then 0xff01ffffffffffff else - 1) AND
            (if 0 < long_time_window pwr then 0xffffffffff01ffff else - 1))"
    and "bit (power_limit_value msr_limit pwr power_unit time_unit) 15 = bit msr_limit 15"
    and "bit (power_limit_value msr_limit pwr power_unit time_unit) 47 = bit msr_limit 47"
    and "bit (power_limit_value msr_limit pwr power_unit time_unit) 63 = bit msr_limit 63"
    and "power_limit_value msr_limit pwr power_unit time_unit AND 0x7fff
           = power_term (long_term pwr) power_unit"
    and "drop_bit 32 (power_limit_value msr_limit pwr power_unit time_unit) AND 0x7fff
           = power_term (short_term pwr) power_unit"
proof -
  have s: "time_field (power_from_seconds (short_time_window pwr) time_unit)"
    if "0 < short_time_window pwr"
    using assms(4) that by (intro power_from_seconds_time_field[OF assms(2,3)]) simp
  have l: "time_field (power_from_seconds (long_time_window pwr) time_unit)"
    if "0 < long_time_window pwr"
    using assms(5) that by (intro power_from_seconds_time_field[OF assms(2,3)]) simp
  define k :: u64 where "k = 0xffff8000ffff8000 AND
            (if 0 < short_time_window pwr then 0xff01ffffffffffff else - 1) AND
            (if 0 < long_time_window pwr then 0xffffffffff01ffff else - 1)"
  define v where "v = power_limit_value msr_limit pwr power_unit time_unit"
  have f: "v AND k = msr_limit AND k"
    unfolding v_def k_def using power_limit_value_frame[OF assms(1) s l] by simp
  then show "power_limit_value msr_limit pwr power_unit time_unit AND
           (0xffff8000ffff8000 AND
            (if 0 < short_time_window pwr then 0xff01ffffffffffff else - 1) AND
            (if 0 < long_time_window pwr then 0xffffffffff01ffff else - 1))
         = msr_limit AND
           (0xffff8000ffff8000 AND
            (if 0 < short_time_window pwr then 0xff01ffffffffffff else - 1) AND
            (if 0 < long_time_window pwr then 0xffffffffff01ffff else - 1))"
    unfolding v_def k_def .
  have kb: "bit k 15" "bit k 47" "bit k 63" unfolding k_def by (simp_all add: bit_simps)
  have "bit (v AND k) n = bit (msr_limit AND k) n" for n using f by simp
  then have b: "bit k n \<Longrightarrow> bit v n = bit msr_limit n" for n
    unfolding bit_and_iff by blast
  show "bit (power_limit_value msr_limit pwr power_unit time_unit) 15 = bit msr_limit 15"
    using b[OF kb(1)] by (simp add: v_def)
  show "bit (power_limit_value msr_limit pwr power_unit time_unit) 47 = bit msr_limit 47"
    using b[OF kb(2)] by (simp add: v_def)
  show "bit (power_limit_value msr_limit pwr power_unit time_unit) 63 = bit msr_limit 63"
    using b[OF kb(3)] by (simp add: v_def)
  note c = power_limit_clamp_fields[OF assms(1), of msr_limit pwr]
  show "power_limit_value msr_limit pwr power_unit time_unit AND 0x7fff
           = power_term (long_term pwr) power_unit"
    using power_limit_value_fields(1)[OF s l] c by simp
  show "drop_bit 32 (power_limit_value msr_limit pwr power_unit time_unit) AND 0x7fff
           = power_term (short_term pwr) power_unit"
    using power_limit_value_fields(2)[OF s l] c by simp
qed

lemma power_from_seconds_quarter_tick: "power_from_seconds (1 / 4096) 1024 = - 4"
proof -
  have u: "i2f 1024 = 1024" using i2f_exact[of 1024] by simp
  have "fl32 (of_int 1 / 4) = of_int 1 / 4" by (rule fl32_quarter) simp
  then have P: "fmul (1 / 4096) (i2f 1024) = 1 / 4" by (simp add: fmul_def u)
  have p5: "0 < fl32 (4 / 5)" by (rule fl32_pos) simp
  have p3: "0 < fl32 (2 / 3)" by (rule fl32_pos) simp
  have p7: "0 < fl32 (4 / 7)" by (rule fl32_pos) simp
  define e1 where "e1 = log2f (fl32 (4 / 5) * 2 powr of_int (- 2))"
  define e2 where "e2 = log2f (fl32 (2 / 3) * 2 powr of_int (- 2))"
  define e3 where "e3 = log2f (fl32 (4 / 7) * 2 powr of_int (- 2))"
  have b1: "of_int (- 19) / 8 \<le> e1" "e1 \<le> of_int (- 17) / 8"
    using log2f_shift[OF p5 log2_fifth, of "- 2"] by (simp_all add: e1_def)
  have b2: "of_int (- 21) / 8 \<le> e2" "e2 \<le> of_int (- 20) / 8"
    using log2f_shift[OF p3 log2_third, of "- 2"] by (simp_all add: e2_def)
  have b3: "of_int (- 23) / 8 \<le> e3" "e3 \<le> of_int (- 22) / 8"
    using log2f_shift[OF p7 log2_seventh, of "- 2"] by (simp_all add: e3_def)
  have "log 2 (1 / 4) = log 2 (2 powr of_int (- 2))" by (simp add: powr_minus_divide)
  also have "\<dots> = of_int (- 2)" by (simp del: of_int_minus)
  finally have "log2f (1 / 4) = fl32 (of_int (- 2))" by (simp only: log2f_def)
  also have "\<dots> = of_int (- 2)" by (rule fl32_of_int_lt) simp
  finally have lq: "log2f (1 / 4) = of_int (- 2)" .
  have arg: "1 / 4 / (real_of_int (4 + 0) / 4) = of_int 1 / 4" by simp
  have one: "real_of_int 1 / 4 = 1 / 4" by simp
  have l0: "log2f (fdiv (fmul (1 / 4096) (i2f 1024)) (of_int (4 + 0) / 4)) = of_int (- 2)"
    unfolding P fdiv_def arg \<open>fl32 (of_int 1 / 4) = of_int 1 / 4\<close> using lq by simp
  have l1: "log2f (fdiv (fmul (1 / 4096) (i2f 1024)) (of_int (4 + 1) / 4)) = e1"
    unfolding P e1_def using quarter_scaled[of "4 / 5"] by (simp add: fdiv_def)
  have l2: "log2f (fdiv (fmul (1 / 4096) (i2f 1024)) (of_int (4 + 2) / 4)) = e2"
    unfolding P e2_def using quarter_scaled[of "2 / 3"] by (simp add: fdiv_def)
  have l3: "log2f (fdiv (fmul (1 / 4096) (i2f 1024)) (of_int (4 + 3) / 4)) = e3"
    unfolding P e3_def using quarter_scaled[of "4 / 7"] by (simp add: fdiv_def)
  have s0: "power_from_seconds_step (1 / 4096) 1024 0 (1, 0) = (0, - 4)"
    using step_nonpositive[OF _ _ l0, of "- 2" 1 0] by (simp add: fl32_0)
  obtain d1 where s1: "power_from_seconds_step (1 / 4096) 1024 1 (0, - 4) = (d1, - 4)"
    using step_keeps_result[OF _ _ l1, of "- 2" "- 4" 0] b1 by auto
  obtain d2 where s2: "power_from_seconds_step (1 / 4096) 1024 2 (d1, - 4) = (d2, - 4)"
    using step_keeps_result[OF _ _ l2, of "- 2" "- 4" d1] b2 by auto
  obtain d3 where s3: "power_from_seconds_step (1 / 4096) 1024 3 (d2, - 4) = (d3, - 4)"
    using step_keeps_result[OF _ _ l3, of "- 2" "- 4" d2] b3 by auto
  have "log2f (fdiv (fmul (1 / 4096) (i2f 1024)) (175 / 100)) = e3"
    unfolding P e3_def using quarter_scaled[of "4 / 7"] by (simp add: fdiv_def)
  then have sat: "\<not> 0x1f \<le> log2f (fdiv (fmul (1 / 4096) (i2f 1024)) (175 / 100))"
    using b3 by simp
  show ?thesis
    unfolding power_from_seconds_def using sat by (simp add: s0 s1 s2 s3)
qed

text \<open>
  C5.  With the units register 0xA0E03 (power unit 8, time unit 1024), the register value
  0x0042816000dd8160 and a request of 44 W for both limits with a short time window of
  1/4096 s, the value computed for writing is 0xfffc816000dd8160: bits 56 to 63, the lock
  bit among them, are set although they were clear and lie outside every field the write
  touches (\<open>power_from_seconds\<close> returns -4).  On a machine that holds these two
  registers, \<open>power_limit\<close> writes this value to the limit register and returns true.
\<close>

theorem power_limit_value_sets_lock_bit:
  "power_limit_value 0x0042816000dd8160
     \<lparr>apply_it = True, short_term = 44, short_time_window = 1 / 4096, long_term = 44,
      long_time_window = 0, mem = None\<rparr> (power_unit_of 0xA0E03) (time_unit_of 0xA0E03)
   = 0xfffc816000dd8160 \<and>
   \<not> bit (0x0042816000dd8160 :: u64) 63 \<and> bit (0xfffc816000dd8160 :: u64) 63 \<and>
   power_limit array_machine
     \<lparr>apply_it = True, short_term = 44, short_time_window = 1 / 4096, long_term = 44,
      long_time_window = 0, mem = None\<rparr>
     \<lparr>name = ''package'', msr_addr = 0x610, mem_addr = 0\<rparr> True
     \<lparr>dev = (\<lambda>a. if a = 0x610 then 0x0042816000dd8160 else 0xA0E03), trace = [], out = [],
      nl = None\<rparr>
   = (True,
      \<lparr>dev = (\<lambda>a. if a = 0x610 then 0x0042816000dd8160 else 0xA0E03)
                (0x610 := 0xfffc816000dd8160),
       trace = [Pread 0x610, Pread 0x606, Pwrite 0x610 0xfffc816000dd8160], out = [],
       nl = None\<rparr>)"
proof -
  have v: "power_limit_value 0x0042816000dd8160
     \<lparr>apply_it = True, short_term = 44, short_time_window = 1 / 4096, long_term = 44,
      long_time_window = 0, mem = None\<rparr> (power_unit_of 0xA0E03) (time_unit_of 0xA0E03)
   = 0xfffc816000dd8160"
    by (simp add: power_limit_value_def power_terms_value_def power_term_def units_A0E03
      power_from_seconds_quarter_tick)
  have b: "\<not> bit (0x0042816000dd8160 :: u64) 63" "bit (0xfffc816000dd8160 :: u64) 63"
    by simp_all
  have e: "power_limit array_machine
     \<lparr>apply_it = True, short_term = 44, short_time_window = 1 / 4096, long_term = 44,
      long_time_window = 0, mem = None\<rparr>
     \<lparr>name = ''package'', msr_addr = 0x610, mem_addr = 0\<rparr> True
     \<lparr>dev = (\<lambda>a. if a = 0x610 then 0x0042816000dd8160 else 0xA0E03), trace = [], out = [],
      nl = None\<rparr>
   = (True,
      \<lparr>dev = (\<lambda>a. if a = 0x610 then 0x0042816000dd8160 else 0xA0E03)
                (0x610 := 0xfffc816000dd8160),
       trace = [Pread 0x610, Pread 0x606, Pwrite 0x610 0xfffc816000dd8160], out = [],
       nl = None\<rparr>)"
    by (simp add: power_limit_def power_limit_read_def rd_def power_limit_write_def wr_def
        power_limit_report_def NEW_LINE_def array_machine_def v)
  show ?thesis using v b e by (intro conjI)
qed

section \<open>Power limits: the access paths\<close>

text \<open>
  C8, as stated: with both addresses zero and \<open>apply\<close> set, \<open>power_limit\<close> reports
  "No method available".  On a machine whose read of the units register fails it
  reports \<open>strerror(errno)\<close> instead.
\<close>

theorem power_limit_no_method_counterexample:
  "last (out (snd (power_limit dead_machine no_request
      \<lparr>name = ''package'', msr_addr = 0, mem_addr = 0\<rparr> True
      \<lparr>dev = (), trace = [], out = [], nl = None\<rparr>)))
   = Power_read_failed ''package'' Strerror \<and>
   last (out (snd (power_limit dead_machine no_request
      \<lparr>name = ''package'', msr_addr = 0, mem_addr = 0\<rparr> True
      \<lparr>dev = (), trace = [], out = [], nl = None\<rparr>)))
   \<noteq> Power_read_failed ''package'' (Literal ''No method available'')"
  by (simp add: power_limit_def power_limit_read_def rd_def dead_machine_def no_request_def
      NEW_LINE_def print_def)

text \<open>
  C8, amended.  With both addresses zero and \<open>apply\<close> set, \<open>power_limit\<close> returns
  false, the only access it attempts is the read of the units register (so no register
  or memory write), and its last printed line is the read failure of the domain, with
  "No method available" when the read of the units register succeeds and with
  \<open>strerror(errno)\<close> when that read fails.
\<close>

theorem power_limit_no_method:
  assumes "apply_it pwr" and "msr_addr domain = 0" and "mem_addr domain = 0"
  shows "\<not> fst (power_limit c pwr domain write w) \<and>
         trace (snd (power_limit c pwr domain write w)) = trace w @ [Pread (MSR_ADDR_UNITS c)] \<and>
         last (out (snd (power_limit c pwr domain write w))) =
           Power_read_failed (name domain)
             (case fst (pread c (dev w) (MSR_ADDR_UNITS c)) of
                None \<Rightarrow> Strerror
              | Some u \<Rightarrow> Literal ''No method available'')"
proof -
  define m where "m = (case mem pwr of None \<Rightarrow> None
                       | Some p \<Rightarrow> Some (p + (mem_addr domain AND MAP_MASK c)))"
  obtain r d where p: "pread c (dev w) (MSR_ADDR_UNITS c) = (r, d)"
    by (cases "pread c (dev w) (MSR_ADDR_UNITS c)")
  define e where "e = (case r of None \<Rightarrow> Strerror | Some u \<Rightarrow> Literal ''No method available'')"
  define w1 where "w1 = w\<lparr>dev := d, trace := trace w @ [Pread (MSR_ADDR_UNITS c)]\<rparr>"
  have rd: "power_limit_read c domain m w = (Inl e, w1)"
    by (simp add: power_limit_read_no_method[OF assms(2,3)] p e_def w1_def)
  obtain nll w2 where n: "NEW_LINE False w1 = (nll, w2)" by (cases "NEW_LINE False w1")
  have t: "trace w2 = trace w1" using NEW_LINE_dev[OF n] by simp
  have "power_limit c pwr domain write w = (False, print (Power_read_failed (name domain) e) w2)"
    using assms(1) by (simp add: power_limit_def rd n flip: m_def)
  then show ?thesis using t by (simp add: print_def p e_def w1_def)
qed

theorem power_limit_no_method_witness:
  "apply_it no_request \<and> msr_addr \<lparr>name = ''package'', msr_addr = 0, mem_addr = 0\<rparr> = 0 \<and>
   mem_addr \<lparr>name = ''package'', msr_addr = 0, mem_addr = 0\<rparr> = 0 \<and>
   \<not> fst (power_limit array_machine no_request
      \<lparr>name = ''package'', msr_addr = 0, mem_addr = 0\<rparr> True
      \<lparr>dev = (\<lambda>a. 0), trace = [], out = [], nl = None\<rparr>) \<and>
   last (out (snd (power_limit array_machine no_request
      \<lparr>name = ''package'', msr_addr = 0, mem_addr = 0\<rparr> True
      \<lparr>dev = (\<lambda>a. 0), trace = [], out = [], nl = None\<rparr>)))
   = Power_read_failed ''package'' (Literal ''No method available'')"
  using power_limit_no_method[of no_request "\<lparr>name = ''package'', msr_addr = 0, mem_addr = 0\<rparr>"
      array_machine True "\<lparr>dev = (\<lambda>a. 0), trace = [], out = [], nl = None\<rparr>"]
  by (simp add: no_request_def array_machine_def)

text \<open>
  C9.  With \<open>register_address = 0\<close>, a nonzero \<open>memory_address\<close> and \<open>apply\<close> set,
  \<open>power_limit\<close> only adds to the log of accesses, and the register-file accesses it
  adds are none or the one read of the units register: the limit register is never
  read through the register file.  When the guarded memory read returns \<open>v\<close> and the
  read of the units register succeeds, the read phase yields \<open>v\<close> as both \<open>msr_limit\<close>
  and \<open>mem_limit\<close>, and the result of \<open>power_limit\<close> is that of the write and report
  phases on these two copies.
\<close>

theorem power_limit_memory_only:
  assumes "apply_it pwr" and "msr_addr domain = 0" and "mem_addr domain \<noteq> 0"
  shows "let m = (case mem pwr of None \<Rightarrow> None
                  | Some p \<Rightarrow> Some (p + (mem_addr domain AND MAP_MASK c)));
             r = power_limit c pwr domain write w;
             es = drop (length (trace w)) (trace (snd r))
         in take (length (trace w)) (trace (snd r)) = trace w \<and>
            (filter msr_access es = [] \<or> filter msr_access es = [Pread (MSR_ADDR_UNITS c)]) \<and>
            (\<forall>v d units d'.
               safe_rw_read c (dev w) m = (Some v, d) \<longrightarrow>
               pread c d (MSR_ADDR_UNITS c) = (Some units, d') \<longrightarrow>
               power_limit_read c domain m w =
                 (Inr (v, v, units),
                  w\<lparr>dev := d', trace := trace w @ [Safe_read m, Pread (MSR_ADDR_UNITS c)]\<rparr>) \<and>
               r = (case power_limit_write c domain pwr m write (v, v, units)
                      (False, w\<lparr>dev := d',
                         trace := trace w @ [Safe_read m, Pread (MSR_ADDR_UNITS c)]\<rparr>) of
                      ((errstr, limits), nllw) \<Rightarrow>
                        (errstr = None, power_limit_report domain units (errstr, limits) nllw)))"
proof -
  define m where "m = (case mem pwr of None \<Rightarrow> None
                       | Some p \<Rightarrow> Some (p + (mem_addr domain AND MAP_MASK c)))"
  define r where "r = power_limit c pwr domain write w"
  note rd = power_limit_read_memory_only[OF assms(2,3), of c m w]
  have pl: "r = (case power_limit_read c domain m w of
              (Inl e, w1) \<Rightarrow>
                (case NEW_LINE False w1 of
                   (nll, w2) \<Rightarrow> (False, print (Power_read_failed (name domain) e) w2))
            | (Inr (msr_limit, mem_limit, units), w1) \<Rightarrow>
                (case power_limit_write c domain pwr m write (msr_limit, mem_limit, units)
                        (False, w1) of
                   ((errstr, limits), nllw) \<Rightarrow>
                     (errstr = None, power_limit_report domain units (errstr, limits) nllw)))"
    using assms(1) by (simp add: r_def power_limit_def flip: m_def)
  have tr: "\<exists>es. trace (snd r) = trace w @ es \<and>
      (filter msr_access es = [] \<or> filter msr_access es = [Pread (MSR_ADDR_UNITS c)])"
  proof (cases "power_limit_read c domain m w")
    case (Pair res w1)
    have t1: "trace w1 = trace w @ [Safe_read m] \<or>
              trace w1 = trace w @ [Safe_read m, Pread (MSR_ADDR_UNITS c)]"
      using Pair unfolding rd by (auto split: prod.splits option.splits)
    show ?thesis
    proof (cases res)
      case (Inl e)
      obtain nll w2 where n: "NEW_LINE False w1 = (nll, w2)" by (cases "NEW_LINE False w1")
      have "trace (snd r) = trace w1"
        using NEW_LINE_dev[OF n] by (simp add: pl Pair Inl n print_def)
      then show ?thesis using t1 by (auto simp: msr_access_def)
    next
      case (Inr lims)
      obtain msr_limit mem_limit units where l: "lims = (msr_limit, mem_limit, units)"
        by (cases lims)
      obtain res' nll' w' where pw: "power_limit_write c domain pwr m write
          (msr_limit, mem_limit, units) (False, w1) = (res', nll', w')"
        by (metis prod_cases3)
      obtain errstr lims' where r': "res' = (errstr, lims')" by (cases res')
      from power_limit_write_memory_only[OF assms(2) pw] obtain es where
        es: "trace w' = trace w1 @ es" "list_all (\<lambda>e. \<not> msr_access e) es" by blast
      have f: "filter msr_access es = []" using es(2) by (induction es) auto
      have "trace (snd r) = trace w'"
        by (simp add: pl Pair Inr l pw r' power_limit_report_trace)
      then show ?thesis using t1 es(1) f by (auto simp: msr_access_def)
    qed
  qed
  have a: "take (length (trace w)) (trace (snd r)) = trace w" using tr by auto
  have b: "filter msr_access (drop (length (trace w)) (trace (snd r))) = [] \<or>
           filter msr_access (drop (length (trace w)) (trace (snd r))) = [Pread (MSR_ADDR_UNITS c)]"
    using tr by auto
  have c: "\<forall>v d units d'.
               safe_rw_read c (dev w) m = (Some v, d) \<longrightarrow>
               pread c d (MSR_ADDR_UNITS c) = (Some units, d') \<longrightarrow>
               power_limit_read c domain m w =
                 (Inr (v, v, units),
                  w\<lparr>dev := d', trace := trace w @ [Safe_read m, Pread (MSR_ADDR_UNITS c)]\<rparr>) \<and>
               r = (case power_limit_write c domain pwr m write (v, v, units)
                      (False, w\<lparr>dev := d',
                         trace := trace w @ [Safe_read m, Pread (MSR_ADDR_UNITS c)]\<rparr>) of
                      ((errstr, limits), nllw) \<Rightarrow>
                        (errstr = None, power_limit_report domain units (errstr, limits) nllw))"
    by (simp add: pl rd)
  show ?thesis using a b c unfolding Let_def m_def[symmetric] r_def[symmetric] by blast
qed

theorem power_limit_memory_only_witness:
  "apply_it (no_request\<lparr>mem := Some 0x1000\<rparr>) \<and>
   msr_addr \<lparr>name = ''dram'', msr_addr = 0, mem_addr = 0x58e0\<rparr> = 0 \<and>
   mem_addr \<lparr>name = ''dram'', msr_addr = 0, mem_addr = 0x58e0\<rparr> \<noteq> 0 \<and>
   (filter msr_access (trace (snd (power_limit array_machine (no_request\<lparr>mem := Some 0x1000\<rparr>)
      \<lparr>name = ''dram'', msr_addr = 0, mem_addr = 0x58e0\<rparr> False
      \<lparr>dev = (\<lambda>a. 0), trace = [], out = [], nl = None\<rparr>))) = [] \<or>
    filter msr_access (trace (snd (power_limit array_machine (no_request\<lparr>mem := Some 0x1000\<rparr>)
      \<lparr>name = ''dram'', msr_addr = 0, mem_addr = 0x58e0\<rparr> False
      \<lparr>dev = (\<lambda>a. 0), trace = [], out = [], nl = None\<rparr>))) = [Pread 0x606]) \<and>
   power_limit_read array_machine \<lparr>name = ''dram'', msr_addr = 0, mem_addr = 0x58e0\<rparr>
      (Some 0x18e0) \<lparr>dev = (\<lambda>a. 0), trace = [], out = [], nl = None\<rparr>
   = (Inr (0, 0, 0),
      \<lparr>dev = (\<lambda>a. 0), trace = [Safe_read (Some 0x18e0), Pread 0x606], out = [], nl = None\<rparr>)"
proof -
  note t = power_limit_memory_only[of "no_request\<lparr>mem := Some 0x1000\<rparr>"
      "\<lparr>name = ''dram'', msr_addr = 0, mem_addr = 0x58e0\<rparr>" array_machine False
      "\<lparr>dev = (\<lambda>a. 0), trace = [], out = [], nl = None\<rparr>", unfolded Let_def]
  have h: "apply_it (no_request\<lparr>mem := Some 0x1000\<rparr>)"
    "msr_addr \<lparr>name = ''dram'', msr_addr = 0, mem_addr = 0x58e0\<rparr> = 0"
    "mem_addr \<lparr>name = ''dram'', msr_addr = 0, mem_addr = 0x58e0\<rparr> \<noteq> 0"
    by (simp_all add: no_request_def)
  have m: "(case mem (no_request\<lparr>mem := Some 0x1000\<rparr>) of None \<Rightarrow> None
            | Some p \<Rightarrow> Some (p + (mem_addr \<lparr>name = ''dram'', msr_addr = 0, mem_addr = 0x58e0\<rparr>
                 AND MAP_MASK array_machine))) = Some 0x18e0"
    by (simp add: no_request_def array_machine_def)
  have r: "safe_rw_read array_machine (\<lambda>a. 0) (Some 0x18e0) = (Some 0, \<lambda>a. 0)"
    "pread array_machine (\<lambda>a. 0) (MSR_ADDR_UNITS array_machine) = (Some 0, \<lambda>a. 0)"
    "MSR_ADDR_UNITS array_machine = 0x606"
    by (simp_all add: array_machine_def)
  from t[OF h] have a: "filter msr_access (trace (snd (power_limit array_machine
      (no_request\<lparr>mem := Some 0x1000\<rparr>)
      \<lparr>name = ''dram'', msr_addr = 0, mem_addr = 0x58e0\<rparr> False
      \<lparr>dev = (\<lambda>a. 0), trace = [], out = [], nl = None\<rparr>))) = [] \<or>
    filter msr_access (trace (snd (power_limit array_machine (no_request\<lparr>mem := Some 0x1000\<rparr>)
      \<lparr>name = ''dram'', msr_addr = 0, mem_addr = 0x58e0\<rparr> False
      \<lparr>dev = (\<lambda>a. 0), trace = [], out = [], nl = None\<rparr>))) = [Pread 0x606]"
    by (simp add: r(3))
  from t[OF h] have "\<forall>v d units d'.
      safe_rw_read array_machine (\<lambda>a. 0) (Some 0x18e0) = (Some v, d) \<longrightarrow>
      pread array_machine d (MSR_ADDR_UNITS array_machine) = (Some units, d') \<longrightarrow>
      power_limit_read array_machine \<lparr>name = ''dram'', msr_addr = 0, mem_addr = 0x58e0\<rparr>
        (Some 0x18e0) \<lparr>dev = (\<lambda>a. 0), trace = [], out = [], nl = None\<rparr>
      = (Inr (v, v, units),
         \<lparr>dev = d', trace = [Safe_read (Some 0x18e0), Pread (MSR_ADDR_UNITS array_machine)],
          out = [], nl = None\<rparr>)"
    unfolding m by simp
  from this[rule_format, OF r(1) r(2)] have b: "power_limit_read array_machine
      \<lparr>name = ''dram'', msr_addr = 0, mem_addr = 0x58e0\<rparr>
      (Some 0x18e0) \<lparr>dev = (\<lambda>a. 0), trace = [], out = [], nl = None\<rparr>
   = (Inr (0, 0, 0),
      \<lparr>dev = (\<lambda>a. 0), trace = [Safe_read (Some 0x18e0), Pread 0x606], out = [], nl = None\<rparr>)"
    by (simp add: r(3))
  show ?thesis using h a b by simp
qed

section \<open>Thermal offset: the report\<close>

text \<open>
  C10.  If the write phase of \<open>tjoffset\<close> leaves no error (the write succeeded or was
  not requested), the report is requested (\<open>nl\<close> is not \<open>NULL\<close>) and the read of the
  temperature register for the report fails, then \<open>tjoffset\<close> returns true and its
  last printed line is the read failure formatted from \<open>errstr\<close>, which is \<open>NULL\<close>.
\<close>

theorem tjoffset_report_read_failure:
  assumes "tjoffset_write c tj write w = (None, w1)"
    and "nl w1 \<noteq> None"
    and "fst (pread c (dev w1) (MSR_ADDR_TEMPERATURE c)) = None"
  shows "fst (tjoffset c True tj write w) = True \<and>
         last (out (snd (tjoffset c True tj write w))) = Tj_read_failed None"
proof -
  obtain nll w2 where n: "NEW_LINE False w1 = (nll, w2)" by (cases "NEW_LINE False w1")
  from assms(2) have nl2: "nl w2 \<noteq> None" using NEW_LINE_nl[OF n] by simp
  have d: "dev w2 = dev w1" using NEW_LINE_dev[OF n] by simp
  obtain r d3 where p: "pread c (dev w1) (MSR_ADDR_TEMPERATURE c) = (r, d3)"
    by (cases "pread c (dev w1) (MSR_ADDR_TEMPERATURE c)")
  with assms(3) have r: "r = None" by simp
  show ?thesis
    using assms(1) n nl2 d p r
    by (simp add: tjoffset_def rd_def print_def)
qed

theorem tjoffset_report_read_failure_witness:
  "tjoffset_write one_read_machine 10 True \<lparr>dev = 0, trace = [], out = [], nl = Some False\<rparr>
     = (None, \<lparr>dev = 1, trace = [Pread 0x1a2, Pwrite 0x1a2 0xa000000], out = [],
               nl = Some False\<rparr>) \<and>
   fst (pread one_read_machine 1 (MSR_ADDR_TEMPERATURE one_read_machine)) = None \<and>
   fst (tjoffset one_read_machine True 10 True
          \<lparr>dev = 0, trace = [], out = [], nl = Some False\<rparr>) = True \<and>
   last (out (snd (tjoffset one_read_machine True 10 True
          \<lparr>dev = 0, trace = [], out = [], nl = Some False\<rparr>))) = Tj_read_failed None"
proof -
  have w: "tjoffset_write one_read_machine 10 True
             \<lparr>dev = 0, trace = [], out = [], nl = Some False\<rparr>
     = (None, \<lparr>dev = 1, trace = [Pread 0x1a2, Pwrite 0x1a2 0xa000000], out = [],
               nl = Some False\<rparr>)"
    by (simp add: tjoffset_write_def one_read_machine_def rd_def wr_def f2i_def)
  have p: "fst (pread one_read_machine
      (dev \<lparr>dev = 1, trace = [Pread 0x1a2, Pwrite 0x1a2 0xa000000], out = [], nl = Some False\<rparr>)
      (MSR_ADDR_TEMPERATURE one_read_machine)) = None"
    by (simp add: one_read_machine_def)
  show ?thesis
    using w p tjoffset_report_read_failure[OF w _ p] by simp
qed

end
